theory Spec2Isabelle
  imports Main "HOL-Library.Countable"
begin

chapter \<open>The rules engine and the game sessions of the TelegramChess server\<close>

text \<open>
  The server pairs two players, runs a game of chess between them on its own small rules
  engine (the class \<^verbatim>\<open>SimpleChess\<close>: no castling, no en passant, promotion to queen
  only), ends a game by checkmate, stalemate or timeout, and keeps a rating per player.
  This theory embeds the engine, the rating update, the search for the closest opponent
  and the timeout check as functions, and proves the properties stated for them.

  Conventions of the embedding. The engine object is a record that every method takes
  and returns. A method that can raise returns a sum whose left side is the error.
  Board coordinates and milliseconds are integers, a \<^verbatim>\<open>NaN\<close> coordinate is
  \<^term>\<open>None\<close>, and \<^verbatim>\<open>Date.now()\<close> is an argument. Ratings are JavaScript numbers as
  they are: IEEE 754 doubles with rounding, the infinities and \<^verbatim>\<open>NaN\<close>.
\<close>


section \<open>Characters and strings of the engine\<close>

text \<open>
  The engine stores one-character strings in its board and compares them with
  \<^verbatim>\<open>toUpperCase\<close> and \<^verbatim>\<open>toLowerCase\<close>. A board cell is modelled as a
  \<^typ>\<open>char option\<close> (\<^term>\<open>None\<close> is JavaScript's \<^verbatim>\<open>null\<close>), a string as a
  \<^typ>\<open>string\<close>. Characters are read as ASCII code units: case conversion acts on
  the letters a-z and A-Z only and whitespace is the ASCII whitespace.
\<close>

definition toUpperCase :: "char \<Rightarrow> char" where
  "toUpperCase ch =
     (let n = (of_char ch :: nat) in if 97 \<le> n \<and> n \<le> 122 then char_of (n - 32) else ch)"

definition toLowerCase :: "char \<Rightarrow> char" where
  "toLowerCase ch =
     (let n = (of_char ch :: nat) in if 65 \<le> n \<and> n \<le> 90 then char_of (n + 32) else ch)"

text \<open>\<^verbatim>\<open>String(n)\<close> for a non-negative integer: its decimal digits.\<close>

fun digitsOf :: "nat \<Rightarrow> string" where
  "digitsOf n =
     (if n < 10 then [char_of (48 + n)] else digitsOf (n div 10) @ [char_of (48 + n mod 10)])"

declare digitsOf.simps [simp del]

definition numToString :: "int \<Rightarrow> string" where
  "numToString i = (if i < 0 then CHR ''-'' # digitsOf (nat (- i)) else digitsOf (nat i))"

text \<open>\<^verbatim>\<open>parseInt(ch, 10)\<close> on a one-character string; \<^term>\<open>None\<close> is \<^verbatim>\<open>NaN\<close>.\<close>

definition parseInt1 :: "char \<Rightarrow> int option" where
  "parseInt1 ch =
     (let n = (of_char ch :: int) in if 48 \<le> n \<and> n \<le> 57 then Some (n - 48) else None)"

definition isSpace :: "char \<Rightarrow> bool" where
  "isSpace ch \<longleftrightarrow> (of_char ch :: nat) \<in> {9, 10, 11, 12, 13, 32}"

definition trim :: "string \<Rightarrow> string" where
  "trim s = rev (dropWhile isSpace (rev (dropWhile isSpace s)))"

text \<open>\<^verbatim>\<open>s.split(/\s+/)\<close>\<close>

function splitWs :: "string \<Rightarrow> string list" where
  "splitWs [] = [[]]"
| "splitWs (ch # cs) =
     (if isSpace ch then [] # splitWs (dropWhile isSpace cs)
      else (case splitWs cs of [] \<Rightarrow> [[ch]] | x # xs \<Rightarrow> (ch # x) # xs))"
  by pat_completeness auto
termination
  by (relation "measure length") (auto simp: length_dropWhile_le less_Suc_eq_le)

text \<open>\<^verbatim>\<open>s.split(sep)\<close> for a one-character separator.\<close>

fun splitOn :: "char \<Rightarrow> string \<Rightarrow> string list" where
  "splitOn sep [] = [[]]"
| "splitOn sep (ch # cs) =
     (if ch = sep then [] # splitOn sep cs
      else (case splitOn sep cs of [] \<Rightarrow> [[ch]] | x # xs \<Rightarrow> (ch # x) # xs))"

section \<open>The rules engine (class SimpleChess)\<close>

datatype color = W | B

datatype error = TypeError

type_synonym cell = "char option"
type_synonym board = "cell list list"

record move =
  from_sq :: string
  to_sq :: string
  piece :: char
  captured :: "char option"
  promotion :: "char option"

record hist_entry =
  h_mv :: move
  h_captured :: cell
  h_turn :: color

record SimpleChess =
  board :: board
  turnColor :: color
  history :: "hist_entry list"

definition reset :: SimpleChess where
  "reset =
     \<lparr>board =
        [map Some ''rnbqkbnr'',
         map Some ''pppppppp'',
         replicate 8 None,
         replicate 8 None,
         replicate 8 None,
         replicate 8 None,
         map Some ''PPPPPPPP'',
         map Some ''RNBQKBNR''],
      turnColor = W,
      history = []\<rparr>"

definition turn :: "SimpleChess \<Rightarrow> color" where
  "turn s = turnColor s"

text \<open>
  \<^verbatim>\<open>board[r][c]\<close> and \<^verbatim>\<open>board[r][c] = v\<close>. Every board the engine builds
  (in \<^verbatim>\<open>reset\<close> and \<^verbatim>\<open>load\<close>) has 8 rows of at least 8 cells, and every index
  the engine uses is checked to lie in 0..7 first; a row index that is \<^verbatim>\<open>NaN\<close> is
  handled where it can occur (\<^verbatim>\<open>get\<close>, \<^verbatim>\<open>moves\<close>, \<^verbatim>\<open>_makeMove\<close>, \<^verbatim>\<open>undo\<close>).
\<close>

definition at :: "board \<Rightarrow> int \<Rightarrow> int \<Rightarrow> cell" where
  "at b r c = b ! nat r ! nat c"

definition put :: "board \<Rightarrow> int \<Rightarrow> int \<Rightarrow> cell \<Rightarrow> board" where
  "put b r c v = b[nat r := (b ! nat r)[nat c := v]]"

definition coordsToSquare :: "int \<Rightarrow> int \<Rightarrow> string" where
  "coordsToSquare r c = char_of (97 + c) # numToString (8 - r)"

definition squareToCoords :: "string \<Rightarrow> (int option \<times> int) option" where
  "squareToCoords square =
     (if square = [] \<or> length square \<noteq> 2 then None
      else
        let file = (of_char (square ! 0) :: int) - 97;
            rank = map_option (\<lambda>v. 8 - v) (parseInt1 (square ! 1))
        in if file < 0 \<or> file > 7 \<or> (case rank of None \<Rightarrow> False | Some rk \<Rightarrow> rk < 0 \<or> rk > 7)
           then None
           else Some (rank, file))"

definition inBounds :: "int \<Rightarrow> int \<Rightarrow> bool" where
  "inBounds r c \<longleftrightarrow> r \<ge> 0 \<and> r < 8 \<and> c \<ge> 0 \<and> c < 8"

definition directions_n :: "(int \<times> int) list" where
  "directions_n = [(-2, -1), (-2, 1), (-1, -2), (-1, 2), (1, -2), (1, 2), (2, -1), (2, 1)]"

definition directions_b :: "(int \<times> int) list" where
  "directions_b = [(-1, -1), (-1, 1), (1, -1), (1, 1)]"

definition directions_r :: "(int \<times> int) list" where
  "directions_r = [(-1, 0), (1, 0), (0, -1), (0, 1)]"

definition directions_q :: "(int \<times> int) list" where
  "directions_q = [(-1, -1), (-1, 1), (1, -1), (1, 1), (-1, 0), (1, 0), (0, -1), (0, 1)]"

definition directions_k :: "(int \<times> int) list" where
  "directions_k = [(-1, -1), (-1, 0), (-1, 1), (0, -1), (0, 1), (1, -1), (1, 0), (1, 1)]"

text \<open>The object literal pushed onto \<^verbatim>\<open>moves\<close>.\<close>

definition mkMove :: "string \<Rightarrow> string \<Rightarrow> char \<Rightarrow> cell \<Rightarrow> char option \<Rightarrow> move" where
  "mkMove fromSquare toSq pc target promo =
     \<lparr>from_sq = fromSquare, to_sq = toSq, piece = toLowerCase pc,
      captured = map_option toLowerCase target, promotion = promo\<rparr>"

definition pawnMoves :: "board \<Rightarrow> bool \<Rightarrow> string \<Rightarrow> char \<Rightarrow> int \<Rightarrow> int \<Rightarrow> move list" where
  "pawnMoves b isWhite fromSquare pc r c =
     (let dir = (if isWhite then - 1 else 1);
          startRow = (if isWhite then 6 else 1);
          r1 = r + dir;
          forward =
            (if inBounds r1 c \<and> at b r1 c = None then
               (if r1 = 0 \<or> r1 = 7
                then [mkMove fromSquare (coordsToSquare r1 c) pc None (Some CHR ''q'')]
                else [mkMove fromSquare (coordsToSquare r1 c) pc None None]) @
               (let r2 = r + 2 * dir
                in if r = startRow \<and> at b r2 c = None
                   then [mkMove fromSquare (coordsToSquare r2 c) pc None None]
                   else [])
             else []);
          captures =
            concat (map (\<lambda>dc.
              let rr = r + dir; cc = c + dc
              in if inBounds rr cc then
                   (case at b rr cc of
                      None \<Rightarrow> []
                    | Some target \<Rightarrow>
                        if (target = toUpperCase target) \<noteq> isWhite then
                          (if rr = 0 \<or> rr = 7
                           then [mkMove fromSquare (coordsToSquare rr cc) pc (Some target)
                                   (Some CHR ''q'')]
                           else [mkMove fromSquare (coordsToSquare rr cc) pc (Some target) None])
                        else [])
                 else []) [- 1, 1])
      in forward @ captures)"

text \<open>The loop body shared by the knight and the king: one step per offset.\<close>

definition stepMoves ::
  "board \<Rightarrow> bool \<Rightarrow> string \<Rightarrow> char \<Rightarrow> int \<Rightarrow> int \<Rightarrow> (int \<times> int) list \<Rightarrow> move list" where
  "stepMoves b isWhite fromSquare pc r c dirs =
     concat (map (\<lambda>(dr, dc).
       let rr = r + dr; cc = c + dc
       in if \<not> inBounds rr cc then []
          else (case at b rr cc of
                  Some target \<Rightarrow>
                    if (target = toUpperCase target) \<noteq> isWhite
                    then [mkMove fromSquare (coordsToSquare rr cc) pc (Some target) None]
                    else []
                | None \<Rightarrow> [mkMove fromSquare (coordsToSquare rr cc) pc None None])) dirs)"

text \<open>
  The \<^verbatim>\<open>while (this._inBounds(rr, cc))\<close> loop of a sliding piece along one
  direction. Every direction of the tables is non-zero, which is what makes the loop leave
  the board; the test is part of the loop condition here so that the recursion is total.
\<close>

function slide ::
  "board \<Rightarrow> bool \<Rightarrow> string \<Rightarrow> char \<Rightarrow> int \<Rightarrow> int \<Rightarrow> int \<Rightarrow> int \<Rightarrow> move list" where
  "slide b isWhite fromSquare pc rr cc dr dc =
     (if inBounds rr cc \<and> (dr \<noteq> 0 \<or> dc \<noteq> 0) then
        (case at b rr cc of
           Some target \<Rightarrow>
             if (target = toUpperCase target) \<noteq> isWhite
             then [mkMove fromSquare (coordsToSquare rr cc) pc (Some target) None]
             else []
         | None \<Rightarrow>
             mkMove fromSquare (coordsToSquare rr cc) pc None None #
             slide b isWhite fromSquare pc (rr + dr) (cc + dc) dr dc)
      else [])"
  by pat_completeness auto
termination
  by (relation "measure (\<lambda>(b, isWhite, fromSquare, pc, rr, cc, dr, dc).
        nat (if dr > 0 then 8 - rr else if dr < 0 then rr + 1
             else if dc > 0 then 8 - cc else cc + 1))")
     (auto simp: inBounds_def)

declare slide.simps [simp del]

definition slideMoves ::
  "board \<Rightarrow> bool \<Rightarrow> string \<Rightarrow> char \<Rightarrow> int \<Rightarrow> int \<Rightarrow> (int \<times> int) list \<Rightarrow> move list" where
  "slideMoves b isWhite fromSquare pc r c dirs =
     concat (map (\<lambda>(dr, dc). slide b isWhite fromSquare pc (r + dr) (c + dc) dr dc) dirs)"

definition generatePieceMoves :: "SimpleChess \<Rightarrow> int \<Rightarrow> int \<Rightarrow> move list" where
  "generatePieceMoves s r c =
     (case at (board s) r c of
        None \<Rightarrow> []
      | Some pc \<Rightarrow>
          let isWhite = (pc = toUpperCase pc);
              color = (if isWhite then W else B)
          in if color \<noteq> turnColor s then []
             else
               let fromSquare = coordsToSquare r c;
                   lower = toLowerCase pc
               in if lower = CHR ''p'' then pawnMoves (board s) isWhite fromSquare pc r c
                  else if lower = CHR ''n''
                    then stepMoves (board s) isWhite fromSquare pc r c directions_n
                  else if lower = CHR ''b''
                    then slideMoves (board s) isWhite fromSquare pc r c directions_b
                  else if lower = CHR ''r''
                    then slideMoves (board s) isWhite fromSquare pc r c directions_r
                  else if lower = CHR ''q''
                    then slideMoves (board s) isWhite fromSquare pc r c directions_q
                  else if lower = CHR ''k''
                    then stepMoves (board s) isWhite fromSquare pc r c directions_k
                  else [])"

text \<open>The squares in the order of the nested loops \<^verbatim>\<open>for r ... for c ...\<close>.\<close>

definition allSquares :: "(int \<times> int) list" where
  "allSquares = concat (map (\<lambda>r. map (\<lambda>c. (r, c)) [0..7]) [0..7])"

definition findKing :: "board \<Rightarrow> bool \<Rightarrow> (int \<times> int) option" where
  "findKing b isWhite =
     find (\<lambda>(r, c). case at b r c of
                      None \<Rightarrow> False
                    | Some pc \<Rightarrow> toLowerCase pc = CHR ''k'' \<and> (isWhite = (pc = toUpperCase pc)))
       allSquares"

definition attacks :: "SimpleChess \<Rightarrow> bool \<Rightarrow> int \<Rightarrow> int \<Rightarrow> (int \<times> int) \<Rightarrow> bool" where
  "attacks s isWhite kingRow kingCol sq =
     (case sq of (r, c) \<Rightarrow>
        (case at (board s) r c of
           None \<Rightarrow> False
         | Some pc \<Rightarrow>
             let pieceIsWhite = (pc = toUpperCase pc)
             in if pieceIsWhite = isWhite then False
                else list_ex (\<lambda>m. case squareToCoords (to_sq m) of
                                    None \<Rightarrow> False
                                  | Some (rk, fl) \<Rightarrow> rk = Some kingRow \<and> fl = kingCol)
                       (generatePieceMoves (s\<lparr>turnColor := (if pieceIsWhite then W else B)\<rparr>) r c)))"

definition isInCheck :: "SimpleChess \<Rightarrow> color \<Rightarrow> bool" where
  "isInCheck s color =
     (let isWhite = (color = W)
      in case findKing (board s) isWhite of
           None \<Rightarrow> False
         | Some (kingRow, kingCol) \<Rightarrow> list_ex (attacks s isWhite kingRow kingCol) allSquares)"

text \<open>
  \<^verbatim>\<open>_makeMove\<close> and \<^verbatim>\<open>undo\<close>. Reading \<^verbatim>\<open>coords[0]\<close> of a \<^verbatim>\<open>null\<close>
  result, indexing the board with \<^verbatim>\<open>NaN\<close> and calling \<^verbatim>\<open>toUpperCase\<close> on an
  empty cell raise a \<^verbatim>\<open>TypeError\<close>.
\<close>

definition makeMove :: "SimpleChess \<Rightarrow> move \<Rightarrow> error + SimpleChess" where
  "makeMove s m =
     (case (squareToCoords (from_sq m), squareToCoords (to_sq m)) of
        (Some (Some r1, c1), Some (Some r2, c2)) \<Rightarrow>
          let pc = at (board s) r1 c1;
              capt = at (board s) r2 c2;
              hist = history s @ [\<lparr>h_mv = m, h_captured = capt, h_turn = turnColor s\<rparr>];
              b1 = put (put (board s) r2 c2 pc) r1 c1 None;
              flipped = (if turnColor s = W then B else W)
          in (case promotion m of
                None \<Rightarrow> Inr \<lparr>board = b1, turnColor = flipped, history = hist\<rparr>
              | Some promo \<Rightarrow>
                  (case pc of
                     None \<Rightarrow> Inl TypeError
                   | Some p \<Rightarrow>
                       Inr \<lparr>board = put b1 r2 c2
                                      (Some (if p = toUpperCase p then toUpperCase promo
                                             else toLowerCase promo)),
                            turnColor = flipped, history = hist\<rparr>))
      | _ \<Rightarrow> Inl TypeError)"

definition undo :: "SimpleChess \<Rightarrow> error + (move option \<times> SimpleChess)" where
  "undo s =
     (if history s = [] then Inr (None, s)
      else
        let entry = last (history s);
            hist = butlast (history s);
            m = h_mv entry
        in case (squareToCoords (from_sq m), squareToCoords (to_sq m)) of
             (Some (Some r1, c1), Some (Some r2, c2)) \<Rightarrow>
               let pc = at (board s) r2 c2
               in (case (if promotion m \<noteq> None
                         then (case pc of
                                 None \<Rightarrow> Inl TypeError
                               | Some p \<Rightarrow>
                                   Inr (Some (if p = toUpperCase p then CHR ''P'' else CHR ''p'')))
                         else Inr pc) of
                     Inl e \<Rightarrow> Inl e
                   | Inr restorePiece \<Rightarrow>
                       Inr (Some m,
                            \<lparr>board = put (put (board s) r1 c1 restorePiece) r2 c2 (h_captured entry),
                             turnColor = h_turn entry, history = hist\<rparr>))
           | _ \<Rightarrow> Inl TypeError)"

text \<open>
  The legality filter of \<^verbatim>\<open>moves\<close>: each candidate is made, the mover's king is
  tested, and the move is undone; the engine is threaded through the loop as the code
  mutates it.
\<close>

fun legalFilter :: "SimpleChess \<Rightarrow> move list \<Rightarrow> error + (move list \<times> SimpleChess)" where
  "legalFilter s [] = Inr ([], s)"
| "legalFilter s (m # ms) =
     (case makeMove s m of
        Inl e \<Rightarrow> Inl e
      | Inr s1 \<Rightarrow>
          let inCheck = isInCheck s1 (if turnColor s1 = W then B else W)
          in (case undo s1 of
                Inl e \<Rightarrow> Inl e
              | Inr (u, s2) \<Rightarrow>
                  (case legalFilter s2 ms of
                     Inl e \<Rightarrow> Inl e
                   | Inr (rest, s3) \<Rightarrow> Inr (if \<not> inCheck then m # rest else rest, s3))))"

definition sideMoves :: "SimpleChess \<Rightarrow> move list" where
  "sideMoves s =
     concat (map (\<lambda>(r, c).
       case at (board s) r c of
         None \<Rightarrow> []
       | Some pc \<Rightarrow>
           if (if pc = toUpperCase pc then W else B) \<noteq> turnColor s then []
           else generatePieceMoves s r c) allSquares)"

text \<open>
  \<^verbatim>\<open>moves(opts)\<close>, returning the verbose move objects; \<^verbatim>\<open>opts.square || null\<close>
  turns a missing and an empty square into \<^verbatim>\<open>null\<close>. Without \<^verbatim>\<open>verbose\<close> the code
  returns \<^term>\<open>map compact\<close> of the same list.
\<close>

definition moves :: "SimpleChess \<Rightarrow> string option \<Rightarrow> error + (move list \<times> SimpleChess)" where
  "moves s square =
     (case (case square of None \<Rightarrow> None | Some sq \<Rightarrow> if sq = [] then None else Some sq) of
        Some sq \<Rightarrow>
          (case squareToCoords sq of
             None \<Rightarrow> Inr ([], s)
           | Some (None, c) \<Rightarrow> Inl TypeError
           | Some (Some r, c) \<Rightarrow> legalFilter s (generatePieceMoves s r c))
      | None \<Rightarrow> legalFilter s (sideMoves s))"

definition compact :: "move \<Rightarrow> string" where
  "compact m = from_sq m @ to_sq m @ (case promotion m of None \<Rightarrow> [] | Some p \<Rightarrow> [p])"

text \<open>
  \<^verbatim>\<open>move(mv)\<close> for a move object \<^verbatim>\<open>{from, to, promotion?}\<close> of the caller; the
  caller's promotion is any string or absent.
\<close>

definition matches :: "string \<Rightarrow> string \<Rightarrow> string option \<Rightarrow> move \<Rightarrow> bool" where
  "matches frm dst promo lm \<longleftrightarrow>
     from_sq lm = frm \<and> to_sq lm = dst \<and>
     \<not> ((case promo of None \<Rightarrow> False | Some p \<Rightarrow> p \<noteq> []) \<and>
        promo \<noteq> map_option (\<lambda>ch. [ch]) (promotion lm))"

definition move ::
  "SimpleChess \<Rightarrow> string \<Rightarrow> string \<Rightarrow> string option \<Rightarrow> error + (move option \<times> SimpleChess)" where
  "move s frm dst promo =
     (case moves s None of
        Inl e \<Rightarrow> Inl e
      | Inr (legalMoves, s1) \<Rightarrow>
          (case find (matches frm dst promo) legalMoves of
             None \<Rightarrow> Inr (None, s1)
           | Some lm \<Rightarrow>
               (case makeMove s1 lm of
                  Inl e \<Rightarrow> Inl e
                | Inr s2 \<Rightarrow> Inr (Some lm, s2))))"

text \<open>\<^verbatim>\<open>move(mv)\<close> for the compact text form.\<close>

definition moveText :: "SimpleChess \<Rightarrow> string \<Rightarrow> error + (move option \<times> SimpleChess)" where
  "moveText s txt =
     move s (take 2 txt) (take 2 (drop 2 txt))
       (if length txt > 4 then Some (map toLowerCase (drop 4 txt)) else None)"

definition get :: "SimpleChess \<Rightarrow> string \<Rightarrow> error + (char \<times> color) option" where
  "get s square =
     (case squareToCoords square of
        None \<Rightarrow> Inr None
      | Some (None, c) \<Rightarrow> Inl TypeError
      | Some (Some r, c) \<Rightarrow>
          (case at (board s) r c of
             None \<Rightarrow> Inr None
           | Some pc \<Rightarrow> Inr (Some (toLowerCase pc, if pc = toUpperCase pc then W else B))))"

text \<open>\<^verbatim>\<open>fen()\<close>: the inner loop over the cells of one rank, with its counter.\<close>

fun fenCells :: "cell list \<Rightarrow> nat \<Rightarrow> string" where
  "fenCells [] empties = (if empties > 0 then numToString (int empties) else [])"
| "fenCells (None # cs) empties = fenCells cs (empties + 1)"
| "fenCells (Some ch # cs) empties =
     (if empties > 0 then numToString (int empties) else []) @ ch # fenCells cs 0"

definition fenRow :: "board \<Rightarrow> int \<Rightarrow> string" where
  "fenRow b r = fenCells (map (\<lambda>c. at b r c) [0..7]) 0 @ (if r < 7 then ''/'' else [])"

definition fen :: "SimpleChess \<Rightarrow> string" where
  "fen s =
     concat (map (fenRow (board s)) [0..7]) @
     '' '' @ (if turnColor s = W then ''w'' else ''b'') @ '' - - 0 1''"

text \<open>\<^verbatim>\<open>load(fen)\<close>: the loop over the characters of one rank.\<close>

fun parseRow :: "string \<Rightarrow> cell list \<Rightarrow> nat \<Rightarrow> cell list" where
  "parseRow [] row col = row"
| "parseRow (ch # cs) row col =
     (if col > 7 then row
      else if (49::nat) \<le> of_char ch \<and> (of_char ch :: nat) \<le> 56 then
        (let empties = (of_char ch :: nat) - 48
         in parseRow cs (row @ replicate empties None) (col + empties))
      else parseRow cs (row @ [Some ch]) (col + 1))"

definition loadRow :: "string \<Rightarrow> cell list" where
  "loadRow rowText = (let row = parseRow rowText [] 0 in row @ replicate (8 - length row) None)"

definition load :: "SimpleChess \<Rightarrow> string \<Rightarrow> bool \<times> SimpleChess" where
  "load s fenText =
     (case splitWs (trim fenText) of
        [] \<Rightarrow> (False, s)
      | placement # others \<Rightarrow>
          let turnText = (case others of [] \<Rightarrow> ''w'' | t # ts \<Rightarrow> if t = [] then ''w'' else t);
              rows = splitOn CHR ''/'' placement
          in if length rows \<noteq> 8 then (False, s)
             else (True,
                   \<lparr>board = map loadRow rows,
                    turnColor = (if turnText = ''b'' then B else W),
                    history = []\<rparr>))"

text \<open>
  The positions a game can reach: the initial position and every position a successful
  \<^verbatim>\<open>move\<close> leads to.
\<close>

inductive reachable :: "SimpleChess \<Rightarrow> bool" where
  reachable_reset: "reachable reset"
| reachable_move: "reachable s \<Longrightarrow> move s frm dst promo = Inr (Some lm, s') \<Longrightarrow> reachable s'"

section \<open>JavaScript numbers\<close>

text \<open>
  A rating is a JavaScript number: an IEEE 754 double, \<^verbatim>\<open>Infinity\<close>, \<^verbatim>\<open>-Infinity\<close> or
  \<^verbatim>\<open>NaN\<close>. A finite double is the rational number it stands for (the two zeros are one value:
  no operation used here tells them apart), and every arithmetic result is rounded to the
  nearest double, ties to the even significand, by \<open>round64\<close>.
\<close>

datatype jsnum = Fin rat | PInf | NInf | NaN

text \<open>The number of binary digits of a natural number.\<close>

fun bitLength :: "nat \<Rightarrow> nat" where
  "bitLength n = (if n = 0 then 0 else Suc (bitLength (n div 2)))"

declare bitLength.simps [simp del]

definition pow2 :: "int \<Rightarrow> rat" where
  "pow2 k = (if 0 \<le> k then 2 ^ nat k else 1 / 2 ^ nat (- k))"

text \<open>The binary exponent of a positive rational \<open>a\<close>: the \<open>e\<close> with \<open>2^e \<le> a < 2^(e+1)\<close>.\<close>

definition exponentOf :: "rat \<Rightarrow> int" where
  "exponentOf a = (if 1 \<le> a then int (bitLength (nat \<lfloor>a\<rfloor>)) - 1
                   else - int (bitLength (nat (\<lceil>1 / a\<rceil> - 1))))"

definition roundHalfEven :: "rat \<Rightarrow> int" where
  "roundHalfEven r =
     (let f = \<lfloor>r\<rfloor>; d = r - of_int f
      in if d < 1 / 2 then f else if 1 / 2 < d then f + 1 else if even f then f else f + 1)"

text \<open>
  Rounding to a double: 53 significant bits, the least exponent \<open>-1022\<close> (below it the
  subnormal numbers, spaced \<open>2^-1074\<close>), and overflow to an infinity from \<open>2^1024\<close> on.
\<close>

definition round64 :: "rat \<Rightarrow> jsnum" where
  "round64 x =
     (if x = 0 then Fin 0
      else
        let a = \<bar>x\<bar>;
            e = max (exponentOf a) (- 1022);
            q = pow2 (e - 52);
            y = of_int (roundHalfEven (a / q)) * q
        in if pow2 1024 \<le> y then (if 0 < x then PInf else NInf)
           else Fin (if 0 < x then y else - y))"

definition jsNeg :: "jsnum \<Rightarrow> jsnum" where
  "jsNeg a = (case a of Fin x \<Rightarrow> Fin (- x) | PInf \<Rightarrow> NInf | NInf \<Rightarrow> PInf | NaN \<Rightarrow> NaN)"

text \<open>The operator \<^verbatim>\<open>+\<close> on numbers.\<close>

definition jsAdd :: "jsnum \<Rightarrow> jsnum \<Rightarrow> jsnum" where
  "jsAdd a b =
     (case a of
        NaN \<Rightarrow> NaN
      | Fin x \<Rightarrow> (case b of Fin y \<Rightarrow> round64 (x + y) | PInf \<Rightarrow> PInf | NInf \<Rightarrow> NInf | NaN \<Rightarrow> NaN)
      | PInf \<Rightarrow> (case b of Fin y \<Rightarrow> PInf | PInf \<Rightarrow> PInf | NInf \<Rightarrow> NaN | NaN \<Rightarrow> NaN)
      | NInf \<Rightarrow> (case b of Fin y \<Rightarrow> NInf | PInf \<Rightarrow> NaN | NInf \<Rightarrow> NInf | NaN \<Rightarrow> NaN))"

text \<open>The operator \<^verbatim>\<open>-\<close> on numbers.\<close>

definition jsSub :: "jsnum \<Rightarrow> jsnum \<Rightarrow> jsnum" where
  "jsSub a b = jsAdd a (jsNeg b)"

text \<open>The operator \<^verbatim>\<open><\<close> on numbers; \<^verbatim>\<open>a > b\<close> is \<open>jsLess b a\<close>.\<close>

definition jsLess :: "jsnum \<Rightarrow> jsnum \<Rightarrow> bool" where
  "jsLess a b =
     (case a of
        NaN \<Rightarrow> False
      | PInf \<Rightarrow> False
      | Fin x \<Rightarrow> (case b of Fin y \<Rightarrow> x < y | PInf \<Rightarrow> True | NInf \<Rightarrow> False | NaN \<Rightarrow> False)
      | NInf \<Rightarrow> (case b of Fin y \<Rightarrow> True | PInf \<Rightarrow> True | NInf \<Rightarrow> False | NaN \<Rightarrow> False))"

text \<open>\<^verbatim>\<open>Math.abs\<close> and \<^verbatim>\<open>Math.max\<close> of two numbers.\<close>

definition jsAbs :: "jsnum \<Rightarrow> jsnum" where
  "jsAbs a = (case a of Fin x \<Rightarrow> Fin \<bar>x\<bar> | PInf \<Rightarrow> PInf | NInf \<Rightarrow> PInf | NaN \<Rightarrow> NaN)"

definition jsMax :: "jsnum \<Rightarrow> jsnum \<Rightarrow> jsnum" where
  "jsMax a b = (if a = NaN \<or> b = NaN then NaN else if jsLess a b then b else a)"

section \<open>Ratings\<close>

text \<open>The scoreboard is a \<^verbatim>\<open>Map\<close> from user id to rating, a number.\<close>

type_synonym scoreboard = "string \<rightharpoonup> jsnum"

definition getRating :: "scoreboard \<Rightarrow> string \<Rightarrow> jsnum" where
  "getRating sb userId = (case sb userId of None \<Rightarrow> Fin 1500 | Some r \<Rightarrow> r)"

text \<open>The final revision of \<^verbatim>\<open>updateRatings\<close>.\<close>

definition updateRatings :: "scoreboard \<Rightarrow> string \<Rightarrow> string \<Rightarrow> scoreboard" where
  "updateRatings sb winnerId loserId =
     (let winnerRating = getRating sb winnerId;
          loserRating = getRating sb loserId;
          newWinnerRating = jsAdd winnerRating (Fin 5);
          penalty = (if jsLess winnerRating loserRating then Fin 4 else Fin 3);
          newLoserRating = jsMax (Fin 0) (jsSub loserRating penalty)
      in (sb(winnerId \<mapsto> newWinnerRating))(loserId \<mapsto> newLoserRating))"

text \<open>The earlier revision of \<^verbatim>\<open>updateRatings\<close>.\<close>

definition updateRatings_v0 :: "scoreboard \<Rightarrow> string \<Rightarrow> string \<Rightarrow> scoreboard" where
  "updateRatings_v0 sb winnerId loserId =
     (let winnerRating = getRating sb winnerId;
          loserRating = getRating sb loserId;
          newWinnerRating = jsAdd winnerRating (Fin 5);
          penalty = (if jsLess loserRating winnerRating then Fin 4 else Fin 3);
          newLoserRating = jsMax (Fin 1) (jsSub loserRating penalty)
      in (sb(winnerId \<mapsto> newWinnerRating))(loserId \<mapsto> newLoserRating))"

section \<open>Matchmaking\<close>

text \<open>
  The queue is a \<^verbatim>\<open>Map\<close> keyed by user id, iterated in insertion order: an
  association list. A missing rating is \<^term>\<open>None\<close> (\<^verbatim>\<open>rating ?? 1500\<close>).
\<close>

record queue_entry =
  q_id :: string
  q_name :: string
  q_rating :: "jsnum option"
  q_ts :: int

record player =
  p_id :: string
  p_name :: string
  p_rating :: "jsnum option"

definition ratingOr :: "jsnum option \<Rightarrow> jsnum" where
  "ratingOr r = (case r of None \<Rightarrow> Fin 1500 | Some v \<Rightarrow> v)"

text \<open>
  The loop of \<^verbatim>\<open>findBestOpponent\<close>, started with \<^verbatim>\<open>bestId = null\<close> and
  \<^verbatim>\<open>bestDiff = Infinity\<close>.
\<close>

fun bestLoop ::
  "(string \<times> queue_entry) list \<Rightarrow> player \<Rightarrow> string option \<Rightarrow> jsnum \<Rightarrow> string option" where
  "bestLoop [] pl bestId bestDiff = bestId"
| "bestLoop ((i, u) # rest) pl bestId bestDiff =
     (if i = p_id pl then bestLoop rest pl bestId bestDiff
      else
        let diff = jsAbs (jsSub (ratingOr (q_rating u)) (ratingOr (p_rating pl)))
        in if jsLess diff bestDiff
           then bestLoop rest pl (Some i) diff
           else bestLoop rest pl bestId bestDiff)"

text \<open>The result test \<^verbatim>\<open>bestId ? ... : null\<close> is false for \<^verbatim>\<open>null\<close> and for the empty string.\<close>

definition findBestOpponent :: "(string \<times> queue_entry) list \<Rightarrow> player \<Rightarrow> queue_entry option" where
  "findBestOpponent queue pl =
     (case bestLoop queue pl None PInf of
        None \<Rightarrow> None
      | Some bestId \<Rightarrow> if bestId = [] then None else map_of queue bestId)"

section \<open>Game sessions\<close>

record player_info =
  pl_id :: string
  pl_name :: string

record game_result =
  winnerId :: "string option"
  loserId :: "string option"
  reason :: string

record game =
  g_id :: string
  players :: "color \<Rightarrow> player_info"
  engine :: SimpleChess
  g_turn :: color
  over :: bool
  result :: "game_result option"
  lastMove :: int

definition MOVE_TIMEOUT_MS :: int where
  "MOVE_TIMEOUT_MS = 5 * 60 * 1000"

text \<open>
  \<^verbatim>\<open>checkTimeout(game)\<close>, with the clock reading \<^verbatim>\<open>Date.now()\<close> as the argument
  \<open>now\<close> and the scoreboard passed through. A missing game is \<^term>\<open>None\<close>; the test
  \<^verbatim>\<open>game.lastMove && ...\<close> fails for a time stamp that is \<open>0\<close>.
\<close>

definition checkTimeout ::
  "int \<Rightarrow> game option \<Rightarrow> scoreboard \<Rightarrow> bool \<times> game option \<times> scoreboard" where
  "checkTimeout now g sb =
     (case g of
        None \<Rightarrow> (False, g, sb)
      | Some gm \<Rightarrow>
          if over gm then (False, g, sb)
          else if lastMove gm \<noteq> 0 \<and> now - lastMove gm > MOVE_TIMEOUT_MS then
            (let loserColor = turn (engine gm);
                 winnerColor = (if loserColor = W then B else W);
                 winner = pl_id (players gm winnerColor);
                 loser = pl_id (players gm loserColor)
             in (True,
                 Some (gm\<lparr>over := True,
                          result := Some \<lparr>winnerId = Some winner, loserId = Some loser,
                                          reason = ''timeout''\<rparr>\<rparr>),
                 updateRatings sb winner loser))
          else (False, g, sb))"

section \<open>Invariants and other notions of the proofs\<close>

text \<open>
  A rating that is an integer of magnitude at most \<open>2^52\<close>, and the integer it stands for.
  The difference of two such ratings is computed without rounding.
\<close>

definition safeRating :: "jsnum \<Rightarrow> bool" where
  "safeRating x = (case x of Fin q \<Rightarrow> q = of_int \<lfloor>q\<rfloor> \<and> \<bar>q\<bar> \<le> 2 ^ 52 | _ \<Rightarrow> False)"

definition ratingValue :: "jsnum \<Rightarrow> int" where
  "ratingValue x = (case x of Fin q \<Rightarrow> \<lfloor>q\<rfloor> | _ \<Rightarrow> 0)"

text \<open>
  The loop invariant of \<^const>\<open>bestLoop\<close>: after the entries \<open>seen\<close>, the pair
  \<open>bestId\<close>, \<open>bestDiff\<close> names the first entry of least rating distance among those
  of the other players.
\<close>

definition ratingGap :: "player \<Rightarrow> queue_entry \<Rightarrow> int" where
  "ratingGap pl u = \<bar>ratingValue (ratingOr (q_rating u)) - ratingValue (ratingOr (p_rating pl))\<bar>"

definition bestSoFar ::
  "player \<Rightarrow> (string \<times> queue_entry) list \<Rightarrow> string option \<Rightarrow> jsnum \<Rightarrow> bool" where
  "bestSoFar pl seen bestId bestDiff \<longleftrightarrow>
     (case bestId of
        None \<Rightarrow> bestDiff = PInf \<and> (\<forall>(i, u) \<in> set seen. i = p_id pl)
      | Some k \<Rightarrow>
          k \<noteq> p_id pl \<and>
          (\<exists>e pre post. seen = pre @ (k, e) # post \<and> bestDiff = Fin (of_int (ratingGap pl e)) \<and>
             (\<forall>(i, u) \<in> set seen. i \<noteq> p_id pl \<longrightarrow> ratingGap pl e \<le> ratingGap pl u) \<and>
             (\<forall>(i, u) \<in> set pre. i \<noteq> p_id pl \<longrightarrow> ratingGap pl e < ratingGap pl u)))"

definition demoQueue :: "(string \<times> queue_entry) list" where
  "demoQueue =
     [(''carl'', \<lparr>q_id = ''carl'', q_name = ''Carl'', q_rating = Some (Fin 2000), q_ts = 1\<rparr>),
      (''bob'', \<lparr>q_id = ''bob'', q_name = ''Bob'', q_rating = Some (Fin 1510), q_ts = 2\<rparr>),
      (''ann'', \<lparr>q_id = ''ann'', q_name = ''Ann'', q_rating = Some (Fin 1500), q_ts = 3\<rparr>)]"

definition demoPlayer :: player where
  "demoPlayer = \<lparr>p_id = ''ann'', p_name = ''Ann'', p_rating = Some (Fin 1500)\<rparr>"

text \<open>
  Two queues in which a player other than \<^const>\<open>demoPlayer\<close> waits: one keyed by the empty
  string (the id \<^verbatim>\<open>[]\<close> of a request body passes the test \<^verbatim>\<open>!id\<close> and \<^verbatim>\<open>String([])\<close>
  is empty), one whose entry is rated \<^verbatim>\<open>Infinity\<close>.
\<close>

definition namelessQueue :: "(string \<times> queue_entry) list" where
  "namelessQueue = [('''', \<lparr>q_id = '''', q_name = ''Bob'', q_rating = Some (Fin 1510), q_ts = 1\<rparr>)]"

definition unboundedQueue :: "(string \<times> queue_entry) list" where
  "unboundedQueue = [(''bob'', \<lparr>q_id = ''bob'', q_name = ''Bob'', q_rating = Some PInf, q_ts = 1\<rparr>)]"

text \<open>A game used to run \<^const>\<open>checkTimeout\<close> on concrete values.\<close>

definition demoGame :: game where
  "demoGame =
     \<lparr>g_id = ''g1'',
      players = (\<lambda>c. if c = W then \<lparr>pl_id = ''ann'', pl_name = ''Ann''\<rparr>
                     else \<lparr>pl_id = ''bob'', pl_name = ''Bob''\<rparr>),
      engine = reset, g_turn = W, over = False, result = None, lastMove = 1000\<rparr>"

text \<open>
  The shape of every board the engine builds: 8 rows of at least 8 cells.
\<close>

definition shaped :: "board \<Rightarrow> bool" where
  "shaped b \<longleftrightarrow> length b = 8 \<and> (\<forall>row \<in> set b. 8 \<le> length row)"

text \<open>
  What every move object built by \<^const>\<open>generatePieceMoves\<close> for the piece \<open>pc\<close> on
  \<open>(r1, c1)\<close> satisfies: it names that square and a square \<open>(r2, c2)\<close> of the board
  that is empty or holds a piece of the other colour, it records what stands there as
  captured, and it carries the promotion to queen exactly when a pawn arrives on row 0
  or 7.
\<close>

definition colorOf :: "char \<Rightarrow> color" where
  "colorOf pc = (if pc = toUpperCase pc then W else B)"

definition target_ok :: "board \<Rightarrow> char \<Rightarrow> int \<Rightarrow> int \<Rightarrow> bool" where
  "target_ok b pc r2 c2 \<longleftrightarrow>
     (case at b r2 c2 of None \<Rightarrow> True | Some t \<Rightarrow> (t = toUpperCase t) \<noteq> (pc = toUpperCase pc))"

definition promo_of :: "char \<Rightarrow> int \<Rightarrow> char option" where
  "promo_of pc r2 = (if toLowerCase pc = CHR ''p'' \<and> (r2 = 0 \<or> r2 = 7) then Some CHR ''q'' else None)"

definition goes :: "board \<Rightarrow> int \<Rightarrow> int \<Rightarrow> char \<Rightarrow> move \<Rightarrow> int \<Rightarrow> int \<Rightarrow> bool" where
  "goes b r1 c1 pc m r2 c2 \<longleftrightarrow>
     inBounds r2 c2 \<and> target_ok b pc r2 c2 \<and>
     from_sq m = coordsToSquare r1 c1 \<and> to_sq m = coordsToSquare r2 c2 \<and>
     piece m = toLowerCase pc \<and> captured m = map_option toLowerCase (at b r2 c2) \<and>
     promotion m = promo_of pc r2"

definition reach :: "board \<Rightarrow> int \<Rightarrow> int \<Rightarrow> char \<Rightarrow> move \<Rightarrow> bool" where
  "reach b r1 c1 pc m \<longleftrightarrow> (\<exists>r2 c2. goes b r1 c1 pc m r2 c2)"

definition candidate :: "SimpleChess \<Rightarrow> move \<Rightarrow> bool" where
  "candidate s m \<longleftrightarrow>
     (\<exists>r1 c1 pc r2 c2. inBounds r1 c1 \<and> at (board s) r1 c1 = Some pc \<and>
        colorOf pc = turnColor s \<and> goes (board s) r1 c1 pc m r2 c2)"

text \<open>
  The piece that stands on the destination after \<^const>\<open>makeMove\<close>, and the test that the
  legality filter applies to a candidate.
\<close>

definition legalIn :: "SimpleChess \<Rightarrow> move \<Rightarrow> bool" where
  "legalIn s m = (case makeMove s m of Inl e \<Rightarrow> False | Inr s1 \<Rightarrow> \<not> isInCheck s1 (turnColor s))"

definition landed :: "char \<Rightarrow> char option \<Rightarrow> char" where
  "landed pc promo =
     (case promo of None \<Rightarrow> pc
      | Some q \<Rightarrow> if pc = toUpperCase pc then toUpperCase q else toLowerCase q)"

text \<open>A board has a king of a colour when some square of the 8 by 8 grid holds one.\<close>

definition hasKing :: "board \<Rightarrow> color \<Rightarrow> bool" where
  "hasKing b color \<longleftrightarrow>
     (\<exists>r c pc. inBounds r c \<and> at b r c = Some pc \<and> toLowerCase pc = CHR ''k'' \<and>
        colorOf pc = color)"

text \<open>
  The ranks that \<^const>\<open>load\<close> reads: the first whitespace-separated part of the trimmed
  text, split at the slashes. A rank digit is one of the characters 1 to 8.
\<close>

definition placementRows :: "string \<Rightarrow> string list" where
  "placementRows txt = splitOn CHR ''/'' (hd (splitWs (trim txt)))"

definition rankDigit :: "char \<Rightarrow> bool" where
  "rankDigit ch \<longleftrightarrow> (49::nat) \<le> of_char ch \<and> (of_char ch :: nat) \<le> 56"

text \<open>
  The boards that \<^const>\<open>fen\<close> and \<^const>\<open>load\<close> carry back and forth unchanged: 8 rows of
  exactly 8 cells, whose pieces are characters that are neither a rank digit nor a slash
  nor whitespace.
\<close>

definition plain :: "char \<Rightarrow> bool" where
  "plain ch \<longleftrightarrow> \<not> rankDigit ch \<and> ch \<noteq> CHR ''/'' \<and> \<not> isSpace ch"

definition plainCell :: "cell \<Rightarrow> bool" where
  "plainCell v \<longleftrightarrow> (case v of None \<Rightarrow> True | Some ch \<Rightarrow> plain ch)"

definition tidy :: "board \<Rightarrow> bool" where
  "tidy b \<longleftrightarrow> length b = 8 \<and> (\<forall>row \<in> set b. length row = 8 \<and> (\<forall>v \<in> set row. plainCell v))"

text \<open>Concrete move objects for running the engine on the initial position.\<close>

definition e2e3 :: move where
  "e2e3 = \<lparr>from_sq = ''e2'', to_sq = ''e3'', piece = CHR ''p'', captured = None, promotion = None\<rparr>"

definition e2e4 :: move where
  "e2e4 = \<lparr>from_sq = ''e2'', to_sq = ''e4'', piece = CHR ''p'', captured = None, promotion = None\<rparr>"

text \<open>A position without a black king, loaded from a placement string.\<close>

definition loneKing :: SimpleChess where
  "loneKing = snd (load reset ''8/8/8/8/8/8/8/R3K3 b'')"

text \<open>
  A position in which the white pawn on a7 can promote on a8 or by capturing on b8, and
  the kings of the position.
\<close>

definition promoPos :: SimpleChess where
  "promoPos = snd (load reset ''1n6/P7/8/8/8/8/8/k6K w'')"

definition a7a8 :: move where
  "a7a8 = \<lparr>from_sq = ''a7'', to_sq = ''a8'', piece = CHR ''p'', captured = None,
            promotion = Some CHR ''q''\<rparr>"

definition a7b8 :: move where
  "a7b8 = \<lparr>from_sq = ''a7'', to_sq = ''b8'', piece = CHR ''p'', captured = Some CHR ''n'',
            promotion = Some CHR ''q''\<rparr>"

definition h1g2 :: move where
  "h1g2 = \<lparr>from_sq = ''h1'', to_sq = ''g2'', piece = CHR ''k'', captured = None, promotion = None\<rparr>"

definition h1h2 :: move where
  "h1h2 = \<lparr>from_sq = ''h1'', to_sq = ''h2'', piece = CHR ''k'', captured = None, promotion = None\<rparr>"

definition h1g1 :: move where
  "h1g1 = \<lparr>from_sq = ''h1'', to_sq = ''g1'', piece = CHR ''k'', captured = None, promotion = None\<rparr>"

text \<open>The position after the first move e2e4.\<close>

definition afterE4 :: SimpleChess where
  "afterE4 = (case makeMove reset e2e4 of Inl e \<Rightarrow> reset | Inr s \<Rightarrow> s)"

section \<open>Characters, squares and board cells\<close>

lemma toLowerCase_eq:
  "toLowerCase p = c \<longleftrightarrow>
     (if 65 \<le> (of_char p :: nat) \<and> (of_char p :: nat) \<le> 90
      then (of_char p :: nat) + 32 = of_char c else p = c)"
  by (auto simp: toLowerCase_def Let_def char_of_eq_iff take_bit_eq_mod)

lemma toUpperCase_eq:
  "toUpperCase p = c \<longleftrightarrow>
     (if 97 \<le> (of_char p :: nat) \<and> (of_char p :: nat) \<le> 122
      then (of_char p :: nat) - 32 = of_char c else p = c)"
  by (auto simp: toUpperCase_def Let_def char_of_eq_iff take_bit_eq_mod)

lemma is_upper_iff:
  "p = toUpperCase p \<longleftrightarrow> \<not> (97 \<le> (of_char p :: nat) \<and> (of_char p :: nat) \<le> 122)"
  using toUpperCase_eq [of p p] by auto

lemma lower_p: "toLowerCase pc = CHR ''p'' \<longleftrightarrow> pc = CHR ''p'' \<or> pc = CHR ''P''"
proof -
  have "(of_char pc :: nat) = 80 \<longleftrightarrow> pc = CHR ''P''"
    using of_char_eq_iff [of pc "CHR ''P''", where ?'a = nat] by simp
  then show ?thesis by (auto simp: toLowerCase_eq split: if_splits)
qed

lemma case_q [simp]:
  "toUpperCase CHR ''q'' = CHR ''Q''" "toLowerCase CHR ''q'' = CHR ''q''"
  "toUpperCase CHR ''Q'' = CHR ''Q''" "toLowerCase CHR ''Q'' = CHR ''q''"
  "toUpperCase CHR ''P'' = CHR ''P''" "toUpperCase CHR ''p'' = CHR ''P''"
  by (simp_all add: toUpperCase_eq toLowerCase_eq)

lemma numToString_digit: "0 \<le> i \<Longrightarrow> i < 10 \<Longrightarrow> numToString i = [char_of (48 + nat i)]"
  by (simp add: numToString_def digitsOf.simps)

lemma coordsToSquare_inBounds:
  "inBounds r c \<Longrightarrow> coordsToSquare r c = [char_of (97 + c), char_of (48 + nat (8 - r))]"
  by (simp add: coordsToSquare_def inBounds_def numToString_digit)

lemma squareToCoords_coordsToSquare:
  assumes "inBounds r c"
  shows "squareToCoords (coordsToSquare r c) = Some (Some r, c)"
proof -
  from assms have r: "0 \<le> r" "r < 8" and c: "0 \<le> c" "c < 8" by (auto simp: inBounds_def)
  have f: "(of_char (char_of (97 + c) :: char) :: int) = 97 + c"
    using c by simp
  have "(of_char (char_of (48 + nat (8 - r)) :: char) :: nat) = 48 + nat (8 - r)"
    using r by simp
  then have "(of_char (char_of (48 + nat (8 - r)) :: char) :: int) = 48 + (8 - r)"
    using r by (metis of_nat_of_char int_nat_eq of_nat_add of_nat_numeral  add_increasing2 diff_ge_0_iff_ge less_imp_le)
  then show ?thesis
    using r c f by (simp add: coordsToSquare_inBounds [OF assms] squareToCoords_def parseInt1_def Let_def)
qed

lemma coordsToSquare_inj:
  "inBounds r c \<Longrightarrow> inBounds r' c' \<Longrightarrow> coordsToSquare r c = coordsToSquare r' c' \<Longrightarrow> r = r' \<and> c = c'"
  by (metis squareToCoords_coordsToSquare option.inject prod.inject)

lemma at_put:
  assumes "shaped b" "inBounds r c" "inBounds r' c'"
  shows "at (put b r c v) r' c' = (if r' = r \<and> c' = c then v else at b r' c')"
proof -
  from assms have n: "nat r < length b" "nat r' < length b"
    by (auto simp: shaped_def inBounds_def)
  from n(1) have "b ! nat r \<in> set b" by (rule nth_mem)
  with assms(1,2) have "nat c < length (b ! nat r)"
    by (fastforce simp: shaped_def inBounds_def)
  moreover have "nat r = nat r' \<longleftrightarrow> r = r'" "nat c = nat c' \<longleftrightarrow> c = c'"
    using assms(2,3) by (auto simp: inBounds_def)
  ultimately show ?thesis using n
    by (auto simp: at_def put_def nth_list_update)
qed

lemma shaped_put:
  assumes "shaped b"
  shows "shaped (put b r c v)"
proof (cases "nat r < length b")
  case True
  then have "b ! nat r \<in> set b" by (rule nth_mem)
  with assms have "8 \<le> length ((b ! nat r)[nat c := v])" by (simp add: shaped_def)
  with assms show ?thesis
    unfolding shaped_def put_def
    by (auto dest!: subsetD [OF set_update_subset_insert])
next
  case False
  with assms show ?thesis by (simp add: put_def not_less list_update_beyond)
qed

lemma put_same: "put b r c (at b r c) = b"
  by (simp add: put_def at_def)

lemma put_put: "put (put b r c v) r c w = put b r c w"
  by (cases "nat r < length b") (simp_all add: put_def not_less list_update_beyond)

lemma put_commute:
  assumes "inBounds r c" "inBounds r' c'" "r \<noteq> r' \<or> c \<noteq> c'"
  shows "put (put b r c v) r' c' w = put (put b r' c' w) r c v"
proof (cases "r = r'")
  case True
  with assms have "nat c \<noteq> nat c'" by (auto simp: inBounds_def)
  then show ?thesis using True
    by (cases "nat r' < length b") (simp_all add: put_def list_update_swap not_less list_update_beyond)
next
  case False
  with assms have "nat r \<noteq> nat r'" by (auto simp: inBounds_def)
  then show ?thesis by (simp add: put_def list_update_swap)
qed

section \<open>The move objects of the generator\<close>

text \<open>
  On the directions of the tables \<^const>\<open>slide\<close> is the loop of the code: the extra test
  of its condition is true of each of them.
\<close>

lemma directions_nonzero:
  "(dr, dc) \<in> set (directions_b @ directions_r @ directions_q) \<Longrightarrow> dr \<noteq> 0 \<or> dc \<noteq> 0"
  by (auto simp: directions_b_def directions_r_def directions_q_def)

lemma slide_loop:
  "dr \<noteq> 0 \<or> dc \<noteq> 0 \<Longrightarrow>
   slide b isWhite fromSquare pc rr cc dr dc =
     (if inBounds rr cc then
        (case at b rr cc of
           Some target \<Rightarrow>
             if (target = toUpperCase target) \<noteq> isWhite
             then [mkMove fromSquare (coordsToSquare rr cc) pc (Some target) None]
             else []
         | None \<Rightarrow>
             mkMove fromSquare (coordsToSquare rr cc) pc None None #
             slide b isWhite fromSquare pc (rr + dr) (cc + dc) dr dc)
      else [])"
  by (subst slide.simps) simp

lemma goes_mkMove:
  "inBounds r2 c2 \<Longrightarrow> target_ok b pc r2 c2 \<Longrightarrow> promo = promo_of pc r2 \<Longrightarrow>
   tgt = at b r2 c2 \<Longrightarrow>
   goes b r1 c1 pc (mkMove (coordsToSquare r1 c1) (coordsToSquare r2 c2) pc tgt promo) r2 c2"
  by (simp add: goes_def mkMove_def)

lemma reach_mkMove:
  "inBounds r2 c2 \<Longrightarrow> target_ok b pc r2 c2 \<Longrightarrow> promo = promo_of pc r2 \<Longrightarrow>
   tgt = at b r2 c2 \<Longrightarrow>
   reach b r1 c1 pc (mkMove (coordsToSquare r1 c1) (coordsToSquare r2 c2) pc tgt promo)"
  unfolding reach_def by (rule exI, rule exI, rule goes_mkMove)

lemma pawnMoves_reach:
  assumes "m \<in> set (pawnMoves b w (coordsToSquare r c) pc r c)"
    and w: "w = (pc = toUpperCase pc)"
    and p: "toLowerCase pc = CHR ''p''" and rc: "inBounds r c"
  shows "reach b r c pc m"
proof -
  define sq where "sq = coordsToSquare r c"
  define dir :: int where "dir = (if w then - 1 else 1)"
  define forward where "forward =
     (if inBounds (r + dir) c \<and> at b (r + dir) c = None then
        (if r + dir = 0 \<or> r + dir = 7
         then [mkMove sq (coordsToSquare (r + dir) c) pc None (Some CHR ''q'')]
         else [mkMove sq (coordsToSquare (r + dir) c) pc None None]) @
        (if r = (if w then 6 else 1) \<and> at b (r + 2 * dir) c = None
         then [mkMove sq (coordsToSquare (r + 2 * dir) c) pc None None]
         else [])
      else [])"
  define capture where "capture dc =
     (if inBounds (r + dir) (c + dc) then
        (case at b (r + dir) (c + dc) of
           None \<Rightarrow> []
         | Some target \<Rightarrow>
             if (target = toUpperCase target) \<noteq> w then
               (if r + dir = 0 \<or> r + dir = 7
                then [mkMove sq (coordsToSquare (r + dir) (c + dc)) pc (Some target)
                        (Some CHR ''q'')]
                else [mkMove sq (coordsToSquare (r + dir) (c + dc)) pc (Some target) None])
             else [])
      else [])" for dc
  have "pawnMoves b w sq pc r c = forward @ capture (- 1) @ capture 1"
    unfolding pawnMoves_def forward_def capture_def dir_def Let_def
    by (simp only: list.map concat.simps append_Nil2 append_assoc)
  with assms(1) consider (fwd) "m \<in> set forward" | (cap) dc where "m \<in> set (capture dc)"
    unfolding sq_def by auto
  then show ?thesis
  proof cases
    case fwd
    then have step1: "inBounds (r + dir) c" "at b (r + dir) c = None"
      by (auto simp: forward_def split: if_splits)
    from fwd consider
      (one) "m = mkMove sq (coordsToSquare (r + dir) c) pc None (promo_of pc (r + dir))"
    | (two) "r = (if w then 6 else 1)" "at b (r + 2 * dir) c = None"
        "m = mkMove sq (coordsToSquare (r + 2 * dir) c) pc None None"
      by (auto simp: forward_def promo_of_def p split: if_splits)
    then show ?thesis
    proof cases
      case one
      show ?thesis unfolding one sq_def
        by (rule reach_mkMove) (simp_all add: step1 target_ok_def)
    next
      case two
      from two(1) rc have "inBounds (r + 2 * dir) c" "promo_of pc (r + 2 * dir) = None"
        by (auto simp: inBounds_def dir_def promo_of_def split: if_splits)
      then show ?thesis unfolding two(3) sq_def
        by (intro reach_mkMove) (simp_all add: two(2) target_ok_def)
    qed
  next
    case cap
    then have inb: "inBounds (r + dir) (c + dc)"
      by (cases "inBounds (r + dir) (c + dc)") (simp_all add: capture_def)
    with cap obtain t where t: "at b (r + dir) (c + dc) = Some t"
      by (cases "at b (r + dir) (c + dc)") (simp_all add: capture_def)
    with cap inb have enemy: "(t = toUpperCase t) \<noteq> w"
      by (cases "(t = toUpperCase t) \<noteq> w") (simp_all add: capture_def)
    with cap inb t
    have m: "m = mkMove sq (coordsToSquare (r + dir) (c + dc)) pc (Some t) (promo_of pc (r + dir))"
      by (cases "r + dir = 0 \<or> r + dir = 7") (simp_all add: capture_def promo_of_def p)
    show ?thesis unfolding m sq_def
      by (rule reach_mkMove) (use inb t enemy w in \<open>simp_all add: target_ok_def\<close>)
  qed
qed

lemma stepMoves_reach:
  assumes "m \<in> set (stepMoves b w (coordsToSquare r c) pc r c dirs)"
    and w: "w = (pc = toUpperCase pc)"
    and p: "toLowerCase pc \<noteq> CHR ''p''"
  shows "reach b r c pc m"
proof -
  from assms(1) obtain dr dc where d: "(dr, dc) \<in> set dirs" "inBounds (r + dr) (c + dc)"
    and m: "m \<in> set (case at b (r + dr) (c + dc) of
               Some target \<Rightarrow>
                 if (target = toUpperCase target) \<noteq> w
                 then [mkMove (coordsToSquare r c) (coordsToSquare (r + dr) (c + dc)) pc
                         (Some target) None]
                 else []
             | None \<Rightarrow> [mkMove (coordsToSquare r c) (coordsToSquare (r + dr) (c + dc)) pc
                          None None])"
    by (auto simp: stepMoves_def Let_def split: if_splits)
  show ?thesis
  proof (cases "at b (r + dr) (c + dc)")
    case None
    with m have "m = mkMove (coordsToSquare r c) (coordsToSquare (r + dr) (c + dc)) pc None None"
      by simp
    then show ?thesis using d(2) None p
      by (auto intro!: reach_mkMove simp: target_ok_def promo_of_def)
  next
    case (Some t)
    with m have "m = mkMove (coordsToSquare r c) (coordsToSquare (r + dr) (c + dc)) pc
        (Some t) None" "(t = toUpperCase t) \<noteq> w"
      by (auto split: if_splits)
    then show ?thesis using d(2) Some p w
      by (auto intro!: reach_mkMove simp: target_ok_def promo_of_def)
  qed
qed

lemma slide_reach:
  assumes "m \<in> set (slide b w fromSquare pc rr cc dr dc)"
    and "fromSquare = coordsToSquare r c"
    and "w = (pc = toUpperCase pc)"
    and "toLowerCase pc \<noteq> CHR ''p''"
  shows "reach b r c pc m"
  using assms
proof (induction b w fromSquare pc rr cc dr dc rule: slide.induct)
  case (1 b w fromSquare pc rr cc dr dc)
  from "1.prems"(1) have inb: "inBounds rr cc" and nz: "dr \<noteq> 0 \<or> dc \<noteq> 0"
    by (subst (asm) slide.simps, simp split: if_splits)+
  show ?case
  proof (cases "at b rr cc")
    case None
    with "1.prems"(1) inb nz
    have "m = mkMove fromSquare (coordsToSquare rr cc) pc None None \<or>
          m \<in> set (slide b w fromSquare pc (rr + dr) (cc + dc) dr dc)"
      by (subst (asm) slide.simps) auto
    then show ?thesis
    proof
      assume "m = mkMove fromSquare (coordsToSquare rr cc) pc None None"
      then show ?thesis using inb None "1.prems"(2,4)
        by (auto intro!: reach_mkMove simp: target_ok_def promo_of_def)
    next
      assume "m \<in> set (slide b w fromSquare pc (rr + dr) (cc + dc) dr dc)"
      with "1.IH" [OF _ None] inb nz "1.prems"(2,3,4) show ?thesis by blast
    qed
  next
    case (Some t)
    with "1.prems"(1) inb nz
    have "m = mkMove fromSquare (coordsToSquare rr cc) pc (Some t) None"
      "(t = toUpperCase t) \<noteq> w"
      by (subst (asm) slide.simps, simp split: if_splits)+
    then show ?thesis using inb Some "1.prems"(2,3,4)
      by (auto intro!: reach_mkMove simp: target_ok_def promo_of_def)
  qed
qed

lemma slideMoves_reach:
  assumes "m \<in> set (slideMoves b w (coordsToSquare r c) pc r c dirs)"
    and "w = (pc = toUpperCase pc)"
    and "toLowerCase pc \<noteq> CHR ''p''"
  shows "reach b r c pc m"
  using assms by (auto simp: slideMoves_def intro: slide_reach)

lemma generatePieceMoves_goes:
  assumes "m \<in> set (generatePieceMoves s r c)" and "inBounds r c"
  shows "\<exists>pc r2 c2. at (board s) r c = Some pc \<and>
           colorOf pc = turnColor s \<and> goes (board s) r c pc m r2 c2"
proof -
  from assms(1) obtain pc where pc: "at (board s) r c = Some pc"
    by (cases "at (board s) r c") (auto simp: generatePieceMoves_def)
  with assms(1) have col: "(if pc = toUpperCase pc then W else B) = turnColor s"
    by (auto simp: generatePieceMoves_def Let_def split: if_splits)
  define w where "w = (pc = toUpperCase pc)"
  define sq where "sq = coordsToSquare r c"
  from assms(1) pc col have gen: "m \<in> set
     (if toLowerCase pc = CHR ''p'' then pawnMoves (board s) w sq pc r c
      else if toLowerCase pc = CHR ''n'' then stepMoves (board s) w sq pc r c directions_n
      else if toLowerCase pc = CHR ''b'' then slideMoves (board s) w sq pc r c directions_b
      else if toLowerCase pc = CHR ''r'' then slideMoves (board s) w sq pc r c directions_r
      else if toLowerCase pc = CHR ''q'' then slideMoves (board s) w sq pc r c directions_q
      else if toLowerCase pc = CHR ''k'' then stepMoves (board s) w sq pc r c directions_k
      else [])"
    unfolding generatePieceMoves_def w_def sq_def by (simp add: Let_def)
  have "reach (board s) r c pc m"
  proof (cases "toLowerCase pc = CHR ''p''")
    case True
    with gen have "m \<in> set (pawnMoves (board s) w sq pc r c)" by simp
    then show ?thesis unfolding sq_def using w_def True assms(2) by (rule pawnMoves_reach)
  next
    case False
    with gen have "(\<exists>dirs. m \<in> set (stepMoves (board s) w sq pc r c dirs)) \<or>
        (\<exists>dirs. m \<in> set (slideMoves (board s) w sq pc r c dirs))"
      by (auto split: if_splits)
    then show ?thesis
      unfolding sq_def using w_def False by (blast intro: stepMoves_reach slideMoves_reach)
  qed
  with pc col show ?thesis unfolding reach_def colorOf_def by blast
qed

lemma allSquares_inBounds: "(r, c) \<in> set allSquares \<longleftrightarrow> inBounds r c"
  by (auto simp: allSquares_def inBounds_def image_iff)

lemma sideMoves_candidate:
  assumes "m \<in> set (sideMoves s)"
  shows "candidate s m"
proof -
  from assms obtain r c where "inBounds r c" "m \<in> set (generatePieceMoves s r c)"
    unfolding sideMoves_def
    by (auto simp: allSquares_inBounds split: option.splits if_splits)
  then show ?thesis
    unfolding candidate_def using generatePieceMoves_goes by blast
qed

lemma generatePieceMoves_candidate:
  "m \<in> set (generatePieceMoves s r c) \<Longrightarrow> inBounds r c \<Longrightarrow> candidate s m"
  unfolding candidate_def using generatePieceMoves_goes by blast

section \<open>Making and undoing a move; the legality filter\<close>

lemma restore_board:
  assumes "inBounds r1 c1" "inBounds r2 c2" "r1 \<noteq> r2 \<or> c1 \<noteq> c2"
  shows "put (put (put (put b r2 c2 x) r1 c1 y) r1 c1 (at b r1 c1)) r2 c2 (at b r2 c2) = b"
proof -
  have "put (put (put (put b r2 c2 x) r1 c1 y) r1 c1 (at b r1 c1)) r2 c2 (at b r2 c2)
      = put (put (put b r2 c2 x) r1 c1 (at b r1 c1)) r2 c2 (at b r2 c2)"
    by (simp only: put_put)
  also have "\<dots> = put (put (put b r1 c1 (at b r1 c1)) r2 c2 x) r2 c2 (at b r2 c2)"
    using put_commute [OF assms(2,1), of b x "at b r1 c1"] assms(3) by auto
  also have "\<dots> = b" by (simp only: put_put put_same)
  finally show ?thesis .
qed

lemma candidate_coords:
  assumes "candidate s m"
  obtains r1 c1 r2 c2 pc where "inBounds r1 c1" "inBounds r2 c2" "r1 \<noteq> r2 \<or> c1 \<noteq> c2"
    "squareToCoords (from_sq m) = Some (Some r1, c1)"
    "squareToCoords (to_sq m) = Some (Some r2, c2)"
    "at (board s) r1 c1 = Some pc" "colorOf pc = turnColor s"
    "target_ok (board s) pc r2 c2" "promotion m = promo_of pc r2"
proof -
  from assms obtain r1 c1 pc r2 c2 where h: "inBounds r1 c1" "at (board s) r1 c1 = Some pc"
    "colorOf pc = turnColor s" "goes (board s) r1 c1 pc m r2 c2"
    unfolding candidate_def by blast
  from h(4) have g: "inBounds r2 c2" "target_ok (board s) pc r2 c2"
    "from_sq m = coordsToSquare r1 c1" "to_sq m = coordsToSquare r2 c2"
    "promotion m = promo_of pc r2"
    by (simp_all add: goes_def)
  have "r1 \<noteq> r2 \<or> c1 \<noteq> c2"
  proof (rule ccontr)
    assume "\<not> (r1 \<noteq> r2 \<or> c1 \<noteq> c2)"
    with h(2) g(2) show False by (auto simp: target_ok_def)
  qed
  with h g show ?thesis
    by (intro that [of r1 c1 r2 c2 pc]) (simp_all add: squareToCoords_coordsToSquare)
qed

lemma SimpleChess_eq:
  "\<lparr>board = board s, turnColor = turnColor s, history = history s\<rparr> = (s :: SimpleChess)"
  by simp

lemma makeMove_at:
  assumes "squareToCoords (from_sq m) = Some (Some r1, c1)"
    and "squareToCoords (to_sq m) = Some (Some r2, c2)"
    and "at (board s) r1 c1 = Some pc"
    and "inBounds r1 c1" "inBounds r2 c2" "r1 \<noteq> r2 \<or> c1 \<noteq> c2"
  shows "makeMove s m =
     Inr \<lparr>board = put (put (board s) r2 c2 (Some (landed pc (promotion m)))) r1 c1 None,
          turnColor = (if turnColor s = W then B else W),
          history = history s @
            [\<lparr>h_mv = m, h_captured = at (board s) r2 c2, h_turn = turnColor s\<rparr>]\<rparr>"
proof -
  have swap: "put (put (put (board s) r2 c2 (Some pc)) r1 c1 None) r2 c2 v =
      put (put (board s) r2 c2 v) r1 c1 None" for v
    using put_commute [OF assms(4,5,6), of "put (board s) r2 c2 (Some pc)" None v]
    by (simp add: put_put)
  show ?thesis
    unfolding makeMove_def landed_def
    by (cases "promotion m") (simp_all add: assms(1,2,3) Let_def swap)
qed

lemma undo_after_makeMove:
  assumes sh: "shaped (board s)" and cand: "candidate s m"
  obtains s1 where "makeMove s m = Inr s1" "undo s1 = Inr (Some m, s)"
    "turnColor s1 = (if turnColor s = W then B else W)" "shaped (board s1)"
proof -
  from cand obtain r1 c1 r2 c2 pc where h: "inBounds r1 c1" "inBounds r2 c2" "r1 \<noteq> r2 \<or> c1 \<noteq> c2"
    "squareToCoords (from_sq m) = Some (Some r1, c1)"
    "squareToCoords (to_sq m) = Some (Some r2, c2)"
    "at (board s) r1 c1 = Some pc" "colorOf pc = turnColor s"
    "target_ok (board s) pc r2 c2" "promotion m = promo_of pc r2"
    by (rule candidate_coords)
  define b where "b = board s"
  define entry where "entry = \<lparr>h_mv = m, h_captured = at b r2 c2, h_turn = turnColor s\<rparr>"
  define b1 where "b1 = put (put b r2 c2 (Some (landed pc (promotion m)))) r1 c1 None"
  define s1 where "s1 =
    \<lparr>board = b1, turnColor = (if turnColor s = W then B else W), history = history s @ [entry]\<rparr>"
  have mk: "makeMove s m = Inr s1"
    unfolding s1_def b1_def entry_def b_def by (rule makeMove_at [OF h(4,5,6,1,2,3)])
  have sh1: "shaped b1" unfolding b1_def b_def using sh by (intro shaped_put)
  have restored: "(if promotion m \<noteq> None
               then (if landed pc (promotion m) = toUpperCase (landed pc (promotion m))
                     then CHR ''P'' else CHR ''p'')
               else landed pc (promotion m)) = pc"
  proof (cases "promotion m")
    case None
    then show ?thesis by (simp add: landed_def)
  next
    case (Some q)
    with h(9) have "q = CHR ''q''" "toLowerCase pc = CHR ''p''"
      by (auto simp: promo_of_def split: if_splits)
    then have "landed pc (promotion m) = (if pc = toUpperCase pc then CHR ''Q'' else CHR ''q'')"
      "pc = CHR ''p'' \<or> pc = CHR ''P''"
      using Some by (simp_all add: landed_def lower_p)
    then show ?thesis using Some by auto
  qed
  have at1: "at b1 r2 c2 = Some (landed pc (promotion m))"
    unfolding b1_def using sh h(1,2,3)
    by (auto simp: at_put shaped_put b_def)
  have "put (put b1 r1 c1 (Some pc)) r2 c2 (at b r2 c2) = b"
    unfolding b1_def
    using restore_board [OF h(1,2,3), of b "Some (landed pc (promotion m))" None] h(6)
    by (simp add: b_def)
  then have un: "undo s1 = Inr (Some m, s)"
    unfolding undo_def
    using restored at1 h(4,5)
    by (cases "promotion m")
      (simp_all add: s1_def entry_def Let_def b_def SimpleChess_eq)
  show ?thesis
    by (rule that [OF mk un]) (simp_all add: s1_def sh1)
qed

lemma legalFilter_candidates:
  assumes "shaped (board s)" and "\<forall>m \<in> set ms. candidate s m"
  shows "legalFilter s ms = Inr (filter (legalIn s) ms, s)"
  using assms(2)
proof (induction ms)
  case Nil
  show ?case by simp
next
  case (Cons m ms)
  then have "candidate s m" by simp
  with assms(1) obtain s1 where s1: "makeMove s m = Inr s1" "undo s1 = Inr (Some m, s)"
    "turnColor s1 = (if turnColor s = W then B else W)"
    by (rule undo_after_makeMove)
  from s1(3) have "(if turnColor s1 = W then B else W) = turnColor s"
    by (cases "turnColor s") simp_all
  with s1(1,2) Cons show ?case by (simp add: legalIn_def)
qed

lemma squareToCoords_inBounds: "squareToCoords sq = Some (Some r, c) \<Longrightarrow> inBounds r c"
  by (auto simp: squareToCoords_def Let_def inBounds_def split: if_splits option.splits)

lemma moves_side:
  "shaped (board s) \<Longrightarrow> moves s None = Inr (filter (legalIn s) (sideMoves s), s)"
  by (simp add: moves_def legalFilter_candidates sideMoves_candidate)

lemma moves_square:
  "shaped (board s) \<Longrightarrow> sq \<noteq> [] \<Longrightarrow> squareToCoords sq = Some (Some r, c) \<Longrightarrow>
   moves s (Some sq) = Inr (filter (legalIn s) (generatePieceMoves s r c), s)"
  by (simp add: moves_def legalFilter_candidates generatePieceMoves_candidate
      squareToCoords_inBounds)

lemma moves_Inr:
  assumes "shaped (board s)" and "moves s sq = Inr (ms, s')"
  shows "s' = s \<and> (\<forall>m \<in> set ms. candidate s m \<and> legalIn s m)"
proof (cases "case sq of None \<Rightarrow> None | Some q \<Rightarrow> if q = [] then None else Some q")
  case None
  then have "moves s sq = moves s None" by (simp add: moves_def)
  with assms show ?thesis by (auto simp: moves_side sideMoves_candidate)
next
  case (Some q)
  then have sq: "sq = Some q" "q \<noteq> []" by (auto split: option.splits if_splits)
  show ?thesis
  proof (cases "squareToCoords q")
    case None
    with assms(2) sq show ?thesis by (simp add: moves_def)
  next
    case (Some rc)
    obtain rk c where rc: "rc = (rk, c)" by (cases rc)
    with Some assms(2) sq obtain r where r: "rk = Some r"
      by (cases rk) (simp_all add: moves_def)
    with Some rc have co: "squareToCoords q = Some (Some r, c)" by simp
    from moves_square [OF assms(1) sq(2) co] assms(2) sq(1)
    show ?thesis
      by (auto dest: generatePieceMoves_candidate [OF _ squareToCoords_inBounds [OF co]])
  qed
qed

lemma find_Some_mem: "find P xs = Some x \<Longrightarrow> x \<in> set xs \<and> P x"
  by (induction xs) (auto split: if_splits)

lemma move_Some:
  assumes "shaped (board s)" and "move s frm dst promo = Inr (Some lm, s')"
  shows "candidate s lm \<and> legalIn s lm \<and> makeMove s lm = Inr s' \<and> matches frm dst promo lm"
proof -
  from assms(2) have f: "find (matches frm dst promo) (filter (legalIn s) (sideMoves s)) = Some lm"
    and mk: "makeMove s lm = Inr s'"
    by (auto simp: move_def moves_side [OF assms(1)] split: option.splits sum.splits)
  from f have "lm \<in> set (filter (legalIn s) (sideMoves s))" "matches frm dst promo lm"
    by (auto dest: find_Some_mem)
  with mk show ?thesis by (auto intro: sideMoves_candidate)
qed

lemma shaped_reset: "shaped (board reset)"
  by (simp add: reset_def shaped_def)

lemma reachable_shaped: "reachable s \<Longrightarrow> shaped (board s)"
proof (induction rule: reachable.induct)
  case reachable_reset
  show ?case by (rule shaped_reset)
next
  case (reachable_move s frm dst promo lm s')
  from move_Some [OF reachable_move.IH reachable_move.hyps(2)]
  have "candidate s lm" "makeMove s lm = Inr s'" by simp_all
  with reachable_move.IH show ?case
    by (metis undo_after_makeMove sum.inject(2))
qed

section \<open>One move object for each pair of squares\<close>

lemma candidate_unique:
  assumes "candidate s m" "candidate s m'" "from_sq m' = from_sq m" "to_sq m' = to_sq m"
  shows "m' = m"
proof -
  from assms(1) obtain r1 c1 pc r2 c2 where h: "inBounds r1 c1" "at (board s) r1 c1 = Some pc"
    "goes (board s) r1 c1 pc m r2 c2"
    unfolding candidate_def by blast
  from assms(2) obtain r1' c1' pc' r2' c2' where h': "inBounds r1' c1'"
    "at (board s) r1' c1' = Some pc'" "goes (board s) r1' c1' pc' m' r2' c2'"
    unfolding candidate_def by blast
  from h(3) h'(3) assms(3,4) have "coordsToSquare r1' c1' = coordsToSquare r1 c1"
    "coordsToSquare r2' c2' = coordsToSquare r2 c2" "inBounds r2 c2" "inBounds r2' c2'"
    by (simp_all add: goes_def)
  with h(1) h'(1) have same: "r1' = r1" "c1' = c1" "r2' = r2" "c2' = c2"
    by (auto dest: coordsToSquare_inj)
  with h(2) h'(2) have "pc' = pc" by simp
  with same h(3) h'(3) show ?thesis by (simp add: goes_def)
qed

lemma last_rank:
  assumes "inBounds r c" "coordsToSquare r c ! 1 \<in> set ''18''"
  shows "r = 0 \<or> r = 7"
proof -
  from assms(1) have sq: "coordsToSquare r c ! 1 = char_of (48 + nat (8 - r))"
    by (simp add: coordsToSquare_inBounds)
  have e: "ch = d \<longleftrightarrow> (of_char ch :: nat) = of_char d" for ch d :: char by simp
  from assms(1) have "48 + nat (8 - r) < 256" by (auto simp: inBounds_def)
  then have "(of_char (char_of (48 + nat (8 - r)) :: char) :: nat) = 48 + nat (8 - r)"
    by simp
  with assms(2) show ?thesis unfolding sq by (auto simp: e)
qed

lemma move_finds:
  assumes sh: "shaped (board s)" and lm: "lm \<in> set (filter (legalIn s) (sideMoves s))"
  shows "find (matches (from_sq lm) (to_sq lm) promo) (filter (legalIn s) (sideMoves s)) =
         (if matches (from_sq lm) (to_sq lm) promo lm then Some lm else None)"
proof -
  let ?L = "filter (legalIn s) (sideMoves s)"
  let ?P = "matches (from_sq lm) (to_sq lm) promo"
  have uniq: "m = lm" if "m \<in> set ?L" "?P m" for m
  proof -
    from that(1) lm have "candidate s m" "candidate s lm" by (auto intro: sideMoves_candidate)
    moreover from that(2) have "from_sq m = from_sq lm" "to_sq m = to_sq lm"
      by (simp_all add: matches_def)
    ultimately show ?thesis using candidate_unique [of s lm m] by simp
  qed
  show ?thesis
  proof (cases "find ?P ?L")
    case None
    with lm show ?thesis by (auto simp: find_None_iff)
  next
    case (Some m)
    then have "m \<in> set ?L" "?P m" by (auto dest: find_Some_mem)
    with uniq Some show ?thesis by auto
  qed
qed

section \<open>Loading a position\<close>

lemma splitWs_nonempty: "splitWs str \<noteq> []"
  by (induction str rule: splitWs.induct) (auto split: list.splits)

lemma parseRow_Cons:
  "parseRow (ch # cs) row col =
     (if col > 7 then row
      else if rankDigit ch
        then parseRow cs (row @ replicate (of_char ch - 48) None) (col + (of_char ch - 48))
      else parseRow cs (row @ [Some ch]) (col + 1))"
  by (simp add: rankDigit_def Let_def)

lemma parseRow_full: "7 < length acc \<Longrightarrow> parseRow cs acc (length acc) = acc"
  by (cases cs) (simp_all del: parseRow.simps(2) add: parseRow_Cons)

lemma parseRow_ignore:
  "8 \<le> length (parseRow xs acc (length acc)) \<Longrightarrow>
   parseRow (xs @ ys) acc (length acc) = parseRow xs acc (length acc)"
proof (induction xs arbitrary: acc)
  case Nil
  then show ?case by (simp add: parseRow_full)
next
  case (Cons x xs)
  show ?case
  proof (cases "7 < length acc")
    case True
    then show ?thesis by (simp del: parseRow.simps(2) add: parseRow_Cons)
  next
    case False
    show ?thesis
    proof (cases "rankDigit x")
      case True
      with Cons.prems False Cons.IH [of "acc @ replicate (of_char x - 48) None"]
      show ?thesis by (simp del: parseRow.simps(2) add: parseRow_Cons)
    next
      case notdigit: False
      with Cons.prems False Cons.IH [of "acc @ [Some x]"]
      show ?thesis by (simp del: parseRow.simps(2) add: parseRow_Cons)
    qed
  qed
qed

lemma parseRow_letters:
  "\<forall>ch \<in> set cs. \<not> rankDigit ch \<Longrightarrow> length acc \<le> 8 \<Longrightarrow>
   parseRow cs acc (length acc) = acc @ map Some (take (8 - length acc) cs)"
proof (induction cs arbitrary: acc)
  case Nil
  show ?case by simp
next
  case (Cons x xs)
  show ?case
  proof (cases "7 < length acc")
    case True
    with Cons.prems(2) have "length acc = 8" by simp
    then show ?thesis by (simp del: parseRow.simps(2) add: parseRow_Cons)
  next
    case False
    then have "8 - length acc = Suc (7 - length acc)" by simp
    moreover have "8 - length (acc @ [Some x]) = 7 - length acc" by simp
    moreover from Cons.prems(1) have "\<not> rankDigit x" by simp
    ultimately show ?thesis
      using False Cons.prems Cons.IH [of "acc @ [Some x]"]
      by (simp del: parseRow.simps(2) add: parseRow_Cons)
  qed
qed

lemma length_parseRow: "length acc \<le> length (parseRow cs acc col)"
  by (induction cs acc col rule: parseRow.induct) (auto simp: Let_def split: if_splits)

lemma length_loadRow: "8 \<le> length (loadRow row)"
  by (simp add: loadRow_def Let_def)

lemma shaped_loaded: "length rows = 8 \<Longrightarrow> shaped (map loadRow rows)"
  by (simp add: shaped_def length_loadRow)

section \<open>Serializing a position and loading it back\<close>

lemma upto_0_7: "[0..7] = [0, 1, 2, 3, 4, 5, 6, 7]"
  by code_simp

lemma digit_char:
  assumes "0 < e" "e \<le> 8"
  shows "numToString (int e) = [char_of (48 + e)]" "rankDigit (char_of (48 + e))"
    "(of_char (char_of (48 + e) :: char) :: nat) - 48 = e"
    "char_of (48 + e) \<noteq> CHR ''/''" "\<not> isSpace (char_of (48 + e))"
proof -
  from assms have v: "(of_char (char_of (48 + e) :: char) :: nat) = 48 + e" by simp
  show "numToString (int e) = [char_of (48 + e)]"
    using assms by (simp add: numToString_digit)
  show "rankDigit (char_of (48 + e))" using assms by (simp add: rankDigit_def v)
  show "(of_char (char_of (48 + e) :: char) :: nat) - 48 = e" unfolding v by simp
  have e: "ch = d \<longleftrightarrow> (of_char ch :: nat) = of_char d" for ch d :: char by simp
  show "char_of (48 + e) \<noteq> CHR ''/''" unfolding e v using assms by simp
  show "\<not> isSpace (char_of (48 + e))" unfolding isSpace_def v using assms by simp
qed

lemma parseRow_fenCells:
  assumes "\<forall>v \<in> set cs. plainCell v" and "length acc + e + length cs \<le> 8"
  shows "parseRow (fenCells cs e) acc (length acc) = acc @ replicate e None @ cs"
  using assms
proof (induction cs arbitrary: e acc)
  case Nil
  show ?case
  proof (cases "e = 0")
    case True
    then show ?thesis by simp
  next
    case False
    with Nil.prems have e: "0 < e" "e \<le> 8" "\<not> 7 < length acc" by simp_all
    show ?thesis
      using e(1,3)
      by (simp del: parseRow.simps(2) of_char_of add: parseRow_Cons digit_char [OF e(1,2)])
  qed
next
  case (Cons v cs)
  show ?case
  proof (cases v)
    case None
    with Cons.prems Cons.IH [of acc "Suc e"] show ?thesis
      by (simp add: replicate_app_Cons_same)
  next
    case (Some ch)
    with Cons.prems have ch: "\<not> rankDigit ch" by (simp add: plainCell_def plain_def)
    from Cons.prems have rest: "\<forall>v \<in> set cs. plainCell v" by simp
    define acc' where "acc' = acc @ replicate e None"
    have len: "length acc' = length acc + e" by (simp add: acc'_def)
    with Cons.prems(2) have room: "\<not> 7 < length acc'" "length (acc' @ [Some ch]) + 0 + length cs \<le> 8"
      by simp_all
    have step: "parseRow (ch # fenCells cs 0) acc' (length acc') = acc' @ Some ch # cs"
      using Cons.IH [OF rest room(2)] room(1) ch
      by (simp del: parseRow.simps(2) add: parseRow_Cons)
    show ?thesis
    proof (cases "e = 0")
      case True
      with step Some show ?thesis by (simp add: acc'_def)
    next
      case False
      with Cons.prems have e: "0 < e" "e \<le> 8" "\<not> 7 < length acc" by simp_all
      have "parseRow (fenCells (v # cs) e) acc (length acc) =
            parseRow (ch # fenCells cs 0) acc' (length acc + e)"
        using e(1,3) Some
        by (simp del: parseRow.simps(2) of_char_of add: parseRow_Cons digit_char [OF e(1,2)] acc'_def)
      with step len Some show ?thesis by (simp add: acc'_def)
    qed
  qed
qed

lemma loadRow_fenCells:
  assumes "\<forall>v \<in> set cs. plainCell v" and "length cs = 8"
  shows "loadRow (fenCells cs 0) = cs"
  using parseRow_fenCells [OF assms(1), of "[]" 0] assms(2) by (simp add: loadRow_def)

lemma fenCells_chars:
  assumes "\<forall>v \<in> set cs. plainCell v" and "e + length cs \<le> 8"
  shows "\<forall>ch \<in> set (fenCells cs e). ch \<noteq> CHR ''/'' \<and> \<not> isSpace ch"
  using assms
proof (induction cs e rule: fenCells.induct)
  case (1 e)
  then show ?case by (cases "e = 0") (simp_all add: digit_char)
next
  case (2 cs e)
  then show ?case by simp
next
  case (3 ch cs e)
  then have "\<forall>ch \<in> set (fenCells cs 0). ch \<noteq> CHR ''/'' \<and> \<not> isSpace ch" by simp
  moreover from "3.prems" have "ch \<noteq> CHR ''/'' \<and> \<not> isSpace ch"
    by (simp add: plainCell_def plain_def)
  ultimately show ?case using "3.prems"(2)
    by (cases "e = 0") (simp_all add: digit_char)
qed

lemma numToString_nonempty: "numToString i \<noteq> []"
  by (simp add: numToString_def digitsOf.simps [of "nat i"])

lemma fenCells_nonempty: "cs \<noteq> [] \<or> 0 < e \<Longrightarrow> fenCells cs e \<noteq> []"
  by (induction cs e rule: fenCells.induct) (simp_all add: numToString_nonempty)

lemma splitOn_no_sep: "sep \<notin> set p \<Longrightarrow> splitOn sep p = [p]"
  by (induction p) auto

lemma splitOn_append: "sep \<notin> set p \<Longrightarrow> splitOn sep (p @ sep # rest) = p # splitOn sep rest"
  by (induction p) auto

lemma splitWs_append:
  "\<forall>ch \<in> set p. \<not> isSpace ch \<Longrightarrow> isSpace sp \<Longrightarrow>
   splitWs (p @ sp # rest) = p # splitWs (dropWhile isSpace rest)"
  by (induction p) auto

lemma trim_noop:
  assumes "str \<noteq> []" "\<not> isSpace (hd str)" "\<not> isSpace (last str)"
  shows "trim str = str"
proof -
  from assms(1,2) have "dropWhile isSpace str = str" by (cases str) simp_all
  moreover from assms(1,3) have "dropWhile isSpace (rev str) = rev str"
    by (cases "rev str") (simp_all add: last_rev [symmetric] del: last_rev)
  ultimately show ?thesis by (simp add: trim_def)
qed

lemma eight_cells:
  assumes "length xs = 8"
  shows "[xs ! 0, xs ! 1, xs ! 2, xs ! 3, xs ! 4, xs ! 5, xs ! 6, xs ! 7] = xs"
proof (rule nth_equalityI)
  show "length [xs ! 0, xs ! 1, xs ! 2, xs ! 3, xs ! 4, xs ! 5, xs ! 6, xs ! 7] = length xs"
    using assms by simp
next
  fix i
  assume "i < length [xs ! 0, xs ! 1, xs ! 2, xs ! 3, xs ! 4, xs ! 5, xs ! 6, xs ! 7]"
  then have "i = 0 \<or> i = 1 \<or> i = 2 \<or> i = 3 \<or> i = 4 \<or> i = 5 \<or> i = 6 \<or> i = 7"
    by (simp, arith)
  then show "[xs ! 0, xs ! 1, xs ! 2, xs ! 3, xs ! 4, xs ! 5, xs ! 6, xs ! 7] ! i = xs ! i"
    by (elim disjE) simp_all
qed

lemma tidy_row:
  assumes "tidy b" "i < 8"
  shows "length (b ! i) = 8" "\<forall>v \<in> set (b ! i). plainCell v"
proof -
  from assms have "b ! i \<in> set b" by (simp add: tidy_def)
  with assms(1) show "length (b ! i) = 8" "\<forall>v \<in> set (b ! i). plainCell v"
    by (simp_all add: tidy_def)
qed

lemma fenRow_tidy:
  assumes "tidy b" "i < 8"
  shows "fenRow b (int i) = fenCells (b ! i) 0 @ (if i < 7 then ''/'' else [])"
proof -
  have "map (\<lambda>c. at b (int i) c) [0..7] =
      [b ! i ! 0, b ! i ! 1, b ! i ! 2, b ! i ! 3, b ! i ! 4, b ! i ! 5, b ! i ! 6, b ! i ! 7]"
    by (simp add: upto_0_7 at_def)
  also have "\<dots> = b ! i" using tidy_row(1) [OF assms] by (rule eight_cells)
  finally show ?thesis by (simp add: fenRow_def)
qed

lemma fen_load:
  assumes "tidy (board s)"
  shows "load s0 (fen s) = (True, \<lparr>board = board s, turnColor = turnColor s, history = []\<rparr>)"
proof -
  define b where "b = board s"
  define R where "R i = fenCells (b ! i) 0" for i :: nat
  define side where "side = (if turnColor s = W then ''w'' else ''b'')"
  define P where "P = R 0 @ CHR ''/'' # R 1 @ CHR ''/'' # R 2 @ CHR ''/'' # R 3 @ CHR ''/'' #
      R 4 @ CHR ''/'' # R 5 @ CHR ''/'' # R 6 @ CHR ''/'' # R 7"
  have t: "tidy b" using assms by (simp add: b_def)
  have rows: "loadRow (R i) = b ! i" "CHR ''/'' \<notin> set (R i)" "\<forall>ch \<in> set (R i). \<not> isSpace ch"
    "R i \<noteq> []" if "i < 8" for i
  proof -
    note row = tidy_row [OF t that]
    show "loadRow (R i) = b ! i" unfolding R_def using row(2,1) by (rule loadRow_fenCells)
    from fenCells_chars [OF row(2), of 0] row(1)
    show "CHR ''/'' \<notin> set (R i)" "\<forall>ch \<in> set (R i). \<not> isSpace ch"
      unfolding R_def by auto
    from row(1) have "b ! i \<noteq> []" by auto
    then show "R i \<noteq> []" unfolding R_def by (simp add: fenCells_nonempty)
  qed
  have "concat (map (fenRow b) [0..7]) =
      fenRow b (int 0) @ fenRow b (int 1) @ fenRow b (int 2) @ fenRow b (int 3) @
      fenRow b (int 4) @ fenRow b (int 5) @ fenRow b (int 6) @ fenRow b (int 7)"
    by (simp add: upto_0_7)
  also have "\<dots> = P"
    unfolding P_def R_def by (simp only: fenRow_tidy [OF t]) simp
  finally have fen: "fen s = P @ CHR '' '' # side @ '' - - 0 1''"
    by (simp add: fen_def b_def side_def)
  have slash: "\<not> isSpace CHR ''/''" by (simp add: isSpace_def)
  have Pspace: "\<forall>ch \<in> set P. \<not> isSpace ch"
    unfolding P_def
    using rows(3) [of 0, simplified] rows(3) [of 1, simplified] rows(3) [of 2, simplified]
      rows(3) [of 3, simplified] rows(3) [of 4, simplified] rows(3) [of 5, simplified]
      rows(3) [of 6, simplified] rows(3) [of 7, simplified] slash
    by auto
  have Pne: "P \<noteq> []" unfolding P_def using rows(4) [of 0] by simp
  then have "hd (fen s) = hd P" unfolding fen by simp
  with Pspace Pne have h: "\<not> isSpace (hd (fen s))" by (metis hd_in_set)
  have "last (fen s) = CHR ''1''" unfolding fen by simp
  then have l: "\<not> isSpace (last (fen s))" by (simp add: isSpace_def)
  have "fen s \<noteq> []" unfolding fen by simp
  then have tr: "trim (fen s) = fen s" using h l by (rule trim_noop)
  have sideSpace: "\<forall>ch \<in> set side. \<not> isSpace ch" by (simp add: side_def isSpace_def)
  have "splitWs (fen s) = P # splitWs (dropWhile isSpace (side @ CHR '' '' # ''- - 0 1''))"
    unfolding fen using splitWs_append [OF Pspace, of "CHR '' ''"] by (simp add: isSpace_def)
  also have "dropWhile isSpace (side @ CHR '' '' # ''- - 0 1'') = side @ CHR '' '' # ''- - 0 1''"
    by (simp add: side_def isSpace_def)
  also have "splitWs (side @ CHR '' '' # ''- - 0 1'') =
      side # splitWs (dropWhile isSpace ''- - 0 1'')"
    using splitWs_append [OF sideSpace, of "CHR '' ''"] by (simp add: isSpace_def)
  finally have parts: "splitWs (trim (fen s)) = P # side # splitWs (dropWhile isSpace ''- - 0 1'')"
    unfolding tr .
  have split: "splitOn CHR ''/'' P = [R 0, R 1, R 2, R 3, R 4, R 5, R 6, R 7]"
    unfolding P_def using rows(2) by (simp add: splitOn_append splitOn_no_sep)
  have "map loadRow [R 0, R 1, R 2, R 3, R 4, R 5, R 6, R 7] =
      [b ! 0, b ! 1, b ! 2, b ! 3, b ! 4, b ! 5, b ! 6, b ! 7]"
    using rows(1) by simp
  also have "\<dots> = b" using t by (intro eight_cells) (simp add: tidy_def)
  finally have board: "map loadRow [R 0, R 1, R 2, R 3, R 4, R 5, R 6, R 7] = board s"
    unfolding b_def .
  have turn: "(if (if side = [] then ''w'' else side) = ''b'' then B else W) = turnColor s"
    by (cases "turnColor s") (simp_all add: side_def)
  have "load s0 (fen s) =
      (True,
       \<lparr>board = map loadRow [R 0, R 1, R 2, R 3, R 4, R 5, R 6, R 7],
        turnColor = (if (if side = [] then ''w'' else side) = ''b'' then B else W),
        history = []\<rparr>)"
    unfolding load_def parts by (simp add: Let_def split)
  then show ?thesis unfolding board turn .
qed

lemma tidy_shaped: "tidy b \<Longrightarrow> shaped b"
  by (simp add: tidy_def shaped_def)

lemma plain_letters:
  "plain CHR ''Q''" "plain CHR ''q''"
  by (simp_all add: plain_def rankDigit_def isSpace_def)

lemma tidy_reset: "tidy (board reset)"
  by (simp add: reset_def tidy_def plainCell_def plain_def rankDigit_def isSpace_def)

lemma tidy_put:
  assumes "tidy b" "plainCell v"
  shows "tidy (put b r c v)"
proof (cases "nat r < length b")
  case True
  then have row: "b ! nat r \<in> set b" by (rule nth_mem)
  have "set ((b ! nat r)[nat c := v]) \<subseteq> insert v (set (b ! nat r))"
    by (rule set_update_subset_insert)
  with assms row have new: "length ((b ! nat r)[nat c := v]) = 8"
    "\<forall>x \<in> set ((b ! nat r)[nat c := v]). plainCell x"
    by (auto simp: tidy_def)
  have "set (b[nat r := (b ! nat r)[nat c := v]]) \<subseteq> insert ((b ! nat r)[nat c := v]) (set b)"
    by (rule set_update_subset_insert)
  with assms(1) new show ?thesis
    unfolding tidy_def put_def by (simp, blast)
next
  case False
  with assms(1) show ?thesis by (simp add: put_def not_less list_update_beyond)
qed

lemma tidy_at:
  assumes "tidy b" "inBounds r c"
  shows "plainCell (at b r c)"
proof -
  from assms have r: "nat r < 8" and c: "nat c < 8" by (auto simp: inBounds_def)
  from tidy_row [OF assms(1) r] c have "b ! nat r ! nat c \<in> set (b ! nat r)" by simp
  with tidy_row(2) [OF assms(1) r] show ?thesis by (simp add: at_def)
qed

lemma tidy_makeMove:
  assumes t: "tidy (board s)" and cand: "candidate s m" and mk: "makeMove s m = Inr s'"
  shows "tidy (board s')"
proof -
  from cand obtain r1 c1 r2 c2 pc where h: "inBounds r1 c1" "inBounds r2 c2" "r1 \<noteq> r2 \<or> c1 \<noteq> c2"
    "squareToCoords (from_sq m) = Some (Some r1, c1)"
    "squareToCoords (to_sq m) = Some (Some r2, c2)"
    "at (board s) r1 c1 = Some pc" "colorOf pc = turnColor s"
    "target_ok (board s) pc r2 c2" "promotion m = promo_of pc r2"
    by (rule candidate_coords)
  from tidy_at [OF t h(1)] h(6) have "plain pc" by (simp add: plainCell_def)
  then have "plainCell (Some (landed pc (promotion m)))"
    unfolding h(9) by (simp add: plainCell_def landed_def promo_of_def plain_letters)
  moreover have "plainCell None" by (simp add: plainCell_def)
  ultimately have "tidy (put (put (board s) r2 c2 (Some (landed pc (promotion m)))) r1 c1 None)"
    using t by (intro tidy_put)
  with mk show ?thesis unfolding makeMove_at [OF h(4,5,6,1,2,3)] by auto
qed

lemma reachable_tidy: "reachable s \<Longrightarrow> tidy (board s)"
proof (induction rule: reachable.induct)
  case reachable_reset
  show ?case by (rule tidy_reset)
next
  case (reachable_move s frm dst promo lm s')
  from move_Some [OF tidy_shaped [OF reachable_move.IH] reachable_move.hyps(2)]
  have "candidate s lm" "makeMove s lm = Inr s'" by simp_all
  with reachable_move.IH show ?case by (rule tidy_makeMove)
qed

section \<open>Arithmetic of doubles on integers\<close>

text \<open>
  Every integer of magnitude at most \<open>2^53\<close> is a double, so sums and differences that
  stay in this range are exact; \<open>2^53 + 5\<close> is not a double and rounds to \<open>2^53 + 4\<close>.
\<close>

lemma bitLength_bounds: "0 < n \<Longrightarrow> 2 ^ (bitLength n - 1) \<le> n \<and> n < 2 ^ bitLength n"
proof (induction n rule: bitLength.induct)
  case (1 n)
  show ?case
  proof (cases "n div 2 = 0")
    case True
    with "1.prems" have "n = 1" by (simp add: div_eq_0_iff)
    then show ?thesis by (simp add: bitLength.simps [of "Suc 0"] bitLength.simps [of 0])
  next
    case False
    with "1.IH" "1.prems" have ih: "2 ^ (bitLength (n div 2) - 1) \<le> n div 2"
      "n div 2 < 2 ^ bitLength (n div 2)"
      by simp_all
    from False have pos: "0 < bitLength (n div 2)" by (simp add: bitLength.simps [of "n div 2"])
    have bl: "bitLength n = Suc (bitLength (n div 2))"
      using "1.prems" by (simp add: bitLength.simps [of n])
    from pos have "(2::nat) ^ bitLength (n div 2) = 2 * 2 ^ (bitLength (n div 2) - 1)"
      by (cases "bitLength (n div 2)") simp_all
    with ih(1) have "2 ^ bitLength (n div 2) \<le> n" by simp
    moreover from ih(2) have "n < 2 * 2 ^ bitLength (n div 2)" by simp
    ultimately show ?thesis by (simp add: bl)
  qed
qed

lemma bitLength_unique:
  assumes "2 ^ k \<le> n" "n < 2 ^ Suc k"
  shows "bitLength n = Suc k"
proof -
  from assms(1) have pos: "0 < n" by (metis gr0I not_less zero_less_numeral zero_less_power not_le)
  note b = bitLength_bounds [OF pos]
  from b assms(2) have "(2::nat) ^ (bitLength n - 1) < 2 ^ Suc k" by simp
  then have "bitLength n - 1 < Suc k" by (simp only: power_strict_increasing_iff one_less_numeral_iff semiring_norm)
  moreover from b assms(1) have "(2::nat) ^ k < 2 ^ bitLength n" by linarith
  then have "k < bitLength n" by (simp only: power_strict_increasing_iff one_less_numeral_iff semiring_norm)
  ultimately show ?thesis by simp
qed

lemma roundHalfEven_of_int: "roundHalfEven (of_int z) = z"
  by (simp add: roundHalfEven_def)

lemma pow2_nat: "pow2 (int n) = 2 ^ n"
  by (simp add: pow2_def)

lemma round64_int:
  assumes "\<bar>i\<bar> \<le> 2 ^ 53"
  shows "round64 (of_int i) = Fin (of_int i)"
proof (cases "i = 0")
  case True
  then show ?thesis by (simp add: round64_def)
next
  case False
  define m where "m = nat \<bar>i\<bar>"
  define a :: rat where "a = of_int \<bar>i\<bar>"
  from False have mpos: "0 < m" and m: "int m = \<bar>i\<bar>" by (simp_all add: m_def)
  from assms have mle: "m \<le> 2 ^ 53" unfolding m_def by (simp add: nat_le_iff)
  define n where "n = bitLength m - 1"
  note b = bitLength_bounds [OF mpos]
  from b have blpos: "0 < bitLength m" using mpos by (metis gr0I power_0 not_less less_one)
  then have bl: "bitLength m = Suc n" by (simp add: n_def)
  from b mle have "(2::nat) ^ n \<le> 2 ^ 53" unfolding n_def by simp
  then have n53: "n \<le> 53" by (simp only: power_increasing_iff one_less_numeral_iff semiring_norm)
  have a1: "1 \<le> a" using False by (simp add: a_def)
  have fl: "nat \<lfloor>a\<rfloor> = m" unfolding a_def m_def by (simp only: floor_of_int)
  have ex: "exponentOf a = int n" using a1 by (simp add: exponentOf_def fl bl)
  define q where "q = pow2 (int n - 52)"
  note q = q_def
  have "\<exists>z. a / q = of_int z \<and> q \<noteq> 0"
  proof (cases "n \<le> 52")
    case True
    then have "q = 1 / 2 ^ (52 - n)"
      unfolding q pow2_def by (auto simp: nat_diff_distrib' intro: arg_cong [where f = "\<lambda>k. 1 / 2 ^ k"])
    then have "a / q = of_int (\<bar>i\<bar> * 2 ^ (52 - n))" "q \<noteq> 0" by (simp_all add: a_def)
    then show ?thesis by blast
  next
    case False
    with n53 have n: "n = 53" by simp
    with b have "2 ^ 53 \<le> m" by (simp add: n_def)
    with mle have "m = 2 ^ 53" by simp
    with m have "\<bar>i\<bar> = 2 ^ 53" by simp
    then have "a = 2 ^ 53" by (simp add: a_def)
    moreover have "q = 2" unfolding q n by (simp add: pow2_def)
    ultimately have "a / q = of_int (2 ^ 52)" "q \<noteq> 0" by simp_all
    then show ?thesis by blast
  qed
  then obtain z where z: "a / q = of_int z" "q \<noteq> 0" by blast
  then have y: "of_int (roundHalfEven (a / q)) * q = a"
    by (simp add: roundHalfEven_of_int) (simp add: field_simps)
  have "a \<le> 2 ^ 53" using assms by (simp add: a_def)
  also have "(2::rat) ^ 53 < 2 ^ 1024" by (rule power_strict_increasing) simp_all
  finally have small: "\<not> pow2 1024 \<le> a" using pow2_nat [of 1024] by simp
  have abs: "\<bar>of_int i :: rat\<bar> = a" by (simp add: a_def)
  have "round64 (of_int i) = Fin (if 0 < (of_int i :: rat) then a else - a)"
    using False small
    by (simp add: round64_def Let_def abs ex q_def [symmetric] y del: of_int_abs)
  also have "(if 0 < (of_int i :: rat) then a else - a) = of_int i"
    by (simp add: a_def)
  finally show ?thesis .
qed

lemma round64_above_2_53: "round64 9007199254740997 = Fin 9007199254740996"
proof -
  have bl: "bitLength 9007199254740997 = Suc 53" by (rule bitLength_unique) simp_all
  have ex: "exponentOf 9007199254740997 = 53" by (simp add: exponentOf_def bl)
  have q: "pow2 1 = 2" by (simp add: pow2_def)
  have fl: "\<lfloor>9007199254740997 / (2::rat)\<rfloor> = 4503599627370498"
    by (rule floor_unique) simp_all
  have r: "roundHalfEven (9007199254740997 / 2) = 4503599627370498"
    by (simp add: roundHalfEven_def Let_def fl)
  have "(9007199254740996::rat) < 2 ^ 54" by simp
  also have "(2::rat) ^ 54 < 2 ^ 1024" by (rule power_strict_increasing) simp_all
  finally have small: "\<not> pow2 1024 \<le> 9007199254740996" using pow2_nat [of 1024] by simp
  show ?thesis using small by (simp add: round64_def Let_def ex q r)
qed

lemma round64_not_NaN: "round64 x \<noteq> NaN"
  by (simp add: round64_def Let_def)

lemma jsAdd_int:
  "\<bar>a + b\<bar> \<le> 2 ^ 53 \<Longrightarrow> jsAdd (Fin (of_int a)) (Fin (of_int b)) = Fin (of_int (a + b))"
  using round64_int [of "a + b"] by (simp add: jsAdd_def)

lemma jsSub_int:
  "\<bar>a - b\<bar> \<le> 2 ^ 53 \<Longrightarrow> jsSub (Fin (of_int a)) (Fin (of_int b)) = Fin (of_int (a - b))"
  using round64_int [of "a - b"] by (simp add: jsSub_def jsNeg_def jsAdd_def)

lemma jsLess_int: "jsLess (Fin (of_int a)) (Fin (of_int b)) = (a < b)"
  by (simp add: jsLess_def)

lemma jsMax_int: "jsMax (Fin (of_int a)) (Fin (of_int b)) = Fin (of_int (max a b))"
  by (simp add: jsMax_def jsLess_def max_def)

lemma jsSub_Fin_not_NaN: "x \<noteq> NaN \<Longrightarrow> jsSub x (Fin p) \<noteq> NaN"
  by (cases x) (simp_all add: jsSub_def jsNeg_def jsAdd_def round64_not_NaN)

lemma jsMax_floor: "x \<noteq> NaN \<Longrightarrow> jsMax (Fin c) x \<noteq> NaN \<and> \<not> jsLess (jsMax (Fin c) x) (Fin c)"
  by (cases x) (simp_all add: jsMax_def jsLess_def)

section \<open>Rating adjustment\<close>

lemma getRating_upd_same: "getRating (sb(k \<mapsto> v)) k = v"
  by (simp add: getRating_def)

lemma getRating_upd_other: "k' \<noteq> k \<Longrightarrow> getRating (sb(k \<mapsto> v)) k' = getRating sb k'"
  by (simp add: getRating_def)

lemma winner_gain:
  assumes "\<bar>w\<bar> \<le> 2 ^ 53 - 5"
  shows "jsAdd (Fin (of_int w)) (Fin 5) = Fin (of_int (w + 5))"
proof -
  from assms have "\<bar>w + 5\<bar> \<le> 2 ^ 53" by simp
  from jsAdd_int [OF this] show ?thesis by simp
qed

lemma loser_loss:
  assumes "\<bar>l\<bar> \<le> 2 ^ 53 - 5" "0 \<le> p" "p \<le> 4"
  shows "jsMax (Fin (of_int c)) (jsSub (Fin (of_int l)) (Fin (of_int p))) =
         Fin (of_int (max c (l - p)))"
proof -
  from assms have "\<bar>l - p\<bar> \<le> 2 ^ 53" by simp
  from jsSub_int [OF this] show ?thesis by (simp only: jsMax_int)
qed

text \<open>
  Claim C3, as the code has it. Ratings are doubles, so the winner gains exactly 5 only
  where the sum is a double. After a rating adjustment whose winner and loser are
  different players with integer ratings of magnitude at most \<open>2^53 - 5\<close>, the winner's
  stored rating is the prior rating plus exactly 5 and the loser's stored rating is the
  prior rating minus the penalty (4 or 3), floored: at 0 in the final revision and at 1 in
  the earlier one. For every prior rating of the loser that is a number (finite or not),
  the loser's new rating is a number and is not below the floor, so it is never negative.
\<close>

theorem updateRatings_winner_loser:
  "(winner \<noteq> loser \<and>
    getRating sb winner = Fin (of_int w) \<and> \<bar>w\<bar> \<le> 2 ^ 53 - 5 \<and>
    getRating sb loser = Fin (of_int l) \<and> \<bar>l\<bar> \<le> 2 ^ 53 - 5 \<longrightarrow>
      getRating (updateRatings sb winner loser) winner = Fin (of_int (w + 5))
    \<and> getRating (updateRatings sb winner loser) loser =
        Fin (of_int (max 0 (l - (if l > w then 4 else 3))))
    \<and> getRating (updateRatings_v0 sb winner loser) winner = Fin (of_int (w + 5))
    \<and> getRating (updateRatings_v0 sb winner loser) loser =
        Fin (of_int (max 1 (l - (if l < w then 4 else 3)))))
   \<and> (getRating sb loser \<noteq> NaN \<longrightarrow>
        getRating (updateRatings sb winner loser) loser \<noteq> NaN
      \<and> \<not> jsLess (getRating (updateRatings sb winner loser) loser) (Fin 0)
      \<and> getRating (updateRatings_v0 sb winner loser) loser \<noteq> NaN
      \<and> \<not> jsLess (getRating (updateRatings_v0 sb winner loser) loser) (Fin 1))"
proof (intro conjI impI)
  assume h: "winner \<noteq> loser \<and>
    getRating sb winner = Fin (of_int w) \<and> \<bar>w\<bar> \<le> 2 ^ 53 - 5 \<and>
    getRating sb loser = Fin (of_int l) \<and> \<bar>l\<bar> \<le> 2 ^ 53 - 5"
  then have ne: "winner \<noteq> loser" and w: "getRating sb winner = Fin (of_int w)"
    and wb: "\<bar>w\<bar> \<le> 2 ^ 53 - 5" and l: "getRating sb loser = Fin (of_int l)"
    and lb: "\<bar>l\<bar> \<le> 2 ^ 53 - 5"
    by simp_all
  have f0: "Fin 0 = Fin (of_int 0)" and f1: "Fin 1 = Fin (of_int 1)"
    and f3: "Fin 3 = Fin (of_int 3)" and f4: "Fin 4 = Fin (of_int 4)"
    by simp_all
  show "getRating (updateRatings sb winner loser) winner = Fin (of_int (w + 5))"
    using ne winner_gain [OF wb]
    by (simp add: updateRatings_def Let_def getRating_upd_other getRating_upd_same w)
  show "getRating (updateRatings_v0 sb winner loser) winner = Fin (of_int (w + 5))"
    using ne winner_gain [OF wb]
    by (simp add: updateRatings_v0_def Let_def getRating_upd_other getRating_upd_same w)
  show "getRating (updateRatings sb winner loser) loser =
        Fin (of_int (max 0 (l - (if l > w then 4 else 3))))"
  proof (cases "l > w")
    case True
    then show ?thesis
      unfolding updateRatings_def Let_def getRating_upd_same w l jsLess_int f0 f4
      using loser_loss [OF lb, of 4 0] by simp
  next
    case False
    then show ?thesis
      unfolding updateRatings_def Let_def getRating_upd_same w l jsLess_int f0 f3
      using loser_loss [OF lb, of 3 0] by simp
  qed
  show "getRating (updateRatings_v0 sb winner loser) loser =
        Fin (of_int (max 1 (l - (if l < w then 4 else 3))))"
  proof (cases "l < w")
    case True
    then show ?thesis
      unfolding updateRatings_v0_def Let_def getRating_upd_same w l jsLess_int f1 f4
      using loser_loss [OF lb, of 4 1] by simp
  next
    case False
    then show ?thesis
      unfolding updateRatings_v0_def Let_def getRating_upd_same w l jsLess_int f1 f3
      using loser_loss [OF lb, of 3 1] by simp
  qed
next
  assume n: "getRating sb loser \<noteq> NaN"
  have a: "jsSub (getRating sb loser) (if jsLess (getRating sb winner) (getRating sb loser)
             then Fin 4 else Fin 3) \<noteq> NaN"
    using jsSub_Fin_not_NaN [OF n] by simp
  have b: "jsSub (getRating sb loser) (if jsLess (getRating sb loser) (getRating sb winner)
             then Fin 4 else Fin 3) \<noteq> NaN"
    using jsSub_Fin_not_NaN [OF n] by simp
  show "getRating (updateRatings sb winner loser) loser \<noteq> NaN"
    unfolding updateRatings_def Let_def getRating_upd_same using jsMax_floor [OF a] by blast
  show "\<not> jsLess (getRating (updateRatings sb winner loser) loser) (Fin 0)"
    unfolding updateRatings_def Let_def getRating_upd_same using jsMax_floor [OF a] by blast
  show "getRating (updateRatings_v0 sb winner loser) loser \<noteq> NaN"
    unfolding updateRatings_v0_def Let_def getRating_upd_same using jsMax_floor [OF b] by blast
  show "\<not> jsLess (getRating (updateRatings_v0 sb winner loser) loser) (Fin 1)"
    unfolding updateRatings_v0_def Let_def getRating_upd_same using jsMax_floor [OF b] by blast
qed

theorem updateRatings_winner_loser_witness:
  "''ann'' \<noteq> ''bob''
   \<and> getRating (Map.empty(''bob'' \<mapsto> Fin 2)) ''ann'' = Fin 1500
   \<and> getRating (Map.empty(''bob'' \<mapsto> Fin 2)) ''bob'' = Fin 2
   \<and> getRating (updateRatings (Map.empty(''bob'' \<mapsto> Fin 2)) ''ann'' ''bob'') ''ann'' = Fin 1505
   \<and> getRating (updateRatings (Map.empty(''bob'' \<mapsto> Fin 2)) ''ann'' ''bob'') ''bob'' = Fin 0
   \<and> getRating (updateRatings_v0 (Map.empty(''bob'' \<mapsto> Fin 2)) ''ann'' ''bob'') ''ann'' = Fin 1505
   \<and> getRating (updateRatings_v0 (Map.empty(''bob'' \<mapsto> Fin 2)) ''ann'' ''bob'') ''bob'' = Fin 1
   \<and> \<not> jsLess (getRating (updateRatings (Map.empty(''bob'' \<mapsto> Fin 2)) ''ann'' ''bob'') ''bob'')
         (Fin 0)"
  using updateRatings_winner_loser [of "''ann''" "''bob''" "Map.empty(''bob'' \<mapsto> Fin 2)" 1500 2]
  by (simp add: getRating_def jsLess_def)

text \<open>
  At a prior rating of \<open>2^53\<close> the winner gains 4, and at \<^verbatim>\<open>Infinity\<close> nothing.
\<close>

theorem updateRatings_gain_counterexample:
  "getRating (updateRatings (Map.empty(''ann'' \<mapsto> Fin 9007199254740992)) ''ann'' ''bob'') ''ann''
     = Fin 9007199254740996
   \<and> getRating (updateRatings_v0 (Map.empty(''ann'' \<mapsto> Fin 9007199254740992)) ''ann'' ''bob'') ''ann''
     = Fin 9007199254740996
   \<and> getRating (updateRatings (Map.empty(''ann'' \<mapsto> PInf)) ''ann'' ''bob'') ''ann'' = PInf"
  by (simp add: updateRatings_def updateRatings_v0_def Let_def getRating_def jsAdd_def
      round64_above_2_53)

section \<open>Forfeiture by timeout\<close>

lemma turnColor_reset: "turnColor reset = W"
  by (simp add: reset_def)

text \<open>
  Claim C5. For a game with a recorded last-move time stamp, \<^const>\<open>checkTimeout\<close> ends
  the game exactly when it is not over yet and the time since the last move is strictly
  greater than the timeout: the result has reason timeout, the side to move as loser and
  the other side as winner, and the ratings are updated for that winner and loser. When
  the game is over already, or the elapsed time is at most the timeout, nothing changes
  and the answer is false; hence a second call after a timeout changes nothing.
\<close>

theorem checkTimeout_spec:
  "(\<not> over gm \<and> lastMove gm \<noteq> 0 \<and> now - lastMove gm > MOVE_TIMEOUT_MS \<longrightarrow>
      checkTimeout now (Some gm) sb =
        (True,
         Some (gm\<lparr>over := True,
                  result :=
                    Some \<lparr>winnerId = Some (pl_id (players gm (if turn (engine gm) = W then B else W))),
                          loserId = Some (pl_id (players gm (turn (engine gm)))),
                          reason = ''timeout''\<rparr>\<rparr>),
         updateRatings sb (pl_id (players gm (if turn (engine gm) = W then B else W)))
           (pl_id (players gm (turn (engine gm))))))
   \<and> (over gm \<or> now - lastMove gm \<le> MOVE_TIMEOUT_MS \<longrightarrow>
        checkTimeout now (Some gm) sb = (False, Some gm, sb))
   \<and> (fst (checkTimeout now (Some gm) sb) \<longrightarrow>
        checkTimeout now' (fst (snd (checkTimeout now (Some gm) sb)))
          (snd (snd (checkTimeout now (Some gm) sb))) =
        (False, fst (snd (checkTimeout now (Some gm) sb)),
         snd (snd (checkTimeout now (Some gm) sb))))"
  by (simp add: checkTimeout_def Let_def)

theorem checkTimeout_spec_witness:
  "(\<not> over demoGame \<and> lastMove demoGame \<noteq> 0 \<and> 301001 - lastMove demoGame > MOVE_TIMEOUT_MS)
   \<and> checkTimeout 301001 (Some demoGame) Map.empty =
     (True,
      Some (demoGame\<lparr>over := True,
              result := Some \<lparr>winnerId = Some ''bob'', loserId = Some ''ann'',
                              reason = ''timeout''\<rparr>\<rparr>),
      updateRatings Map.empty ''bob'' ''ann'')
   \<and> checkTimeout 301000 (Some demoGame) Map.empty = (False, Some demoGame, Map.empty)
   \<and> checkTimeout 999999 (fst (snd (checkTimeout 301001 (Some demoGame) Map.empty)))
        (snd (snd (checkTimeout 301001 (Some demoGame) Map.empty))) =
      (False, fst (snd (checkTimeout 301001 (Some demoGame) Map.empty)),
       snd (snd (checkTimeout 301001 (Some demoGame) Map.empty)))"
proof -
  have late: "\<not> over demoGame \<and> lastMove demoGame \<noteq> 0 \<and>
      301001 - lastMove demoGame > MOVE_TIMEOUT_MS"
    by (simp add: demoGame_def MOVE_TIMEOUT_MS_def)
  have early: "over demoGame \<or> 301000 - lastMove demoGame \<le> MOVE_TIMEOUT_MS"
    by (simp add: demoGame_def MOVE_TIMEOUT_MS_def)
  have white: "turn (engine demoGame) = W"
    by (simp add: demoGame_def turn_def turnColor_reset)
  have winner: "pl_id (players demoGame (if turn (engine demoGame) = W then B else W)) = ''bob''"
    unfolding white by (simp add: demoGame_def)
  have loser: "pl_id (players demoGame (turn (engine demoGame))) = ''ann''"
    unfolding white by (simp add: demoGame_def)
  note at_late = checkTimeout_spec [where gm = demoGame and now = 301001 and sb = Map.empty
      and now' = 999999]
  note at_early = checkTimeout_spec [where gm = demoGame and now = 301000 and sb = Map.empty
      and now' = 0]
  from at_late late have fired: "checkTimeout 301001 (Some demoGame) Map.empty =
     (True,
      Some (demoGame\<lparr>over := True,
              result := Some \<lparr>winnerId = Some ''bob'', loserId = Some ''ann'',
                              reason = ''timeout''\<rparr>\<rparr>),
      updateRatings Map.empty ''bob'' ''ann'')"
    unfolding winner loser by blast
  then have "fst (checkTimeout 301001 (Some demoGame) Map.empty)" by simp
  with at_late have again: "checkTimeout 999999 (fst (snd (checkTimeout 301001 (Some demoGame) Map.empty)))
        (snd (snd (checkTimeout 301001 (Some demoGame) Map.empty))) =
      (False, fst (snd (checkTimeout 301001 (Some demoGame) Map.empty)),
       snd (snd (checkTimeout 301001 (Some demoGame) Map.empty)))"
    by blast
  from at_early early have "checkTimeout 301000 (Some demoGame) Map.empty =
      (False, Some demoGame, Map.empty)"
    by blast
  with late fired again show ?thesis by blast
qed

section \<open>Matchmaking: the closest opponent\<close>

lemma safeRating_value:
  assumes "safeRating x"
  shows "x = Fin (of_int (ratingValue x))" and "\<bar>ratingValue x\<bar> \<le> 2 ^ 52"
proof -
  from assms obtain q where q: "x = Fin q" "q = of_int \<lfloor>q\<rfloor>" "\<bar>q\<bar> \<le> 2 ^ 52"
    by (cases x) (simp_all add: safeRating_def)
  from q(1,2) show "x = Fin (of_int (ratingValue x))" by (simp add: ratingValue_def)
  from q(2,3) have "\<bar>of_int \<lfloor>q\<rfloor> :: rat\<bar> \<le> 2 ^ 52" by simp
  then have "\<bar>\<lfloor>q\<rfloor>\<bar> \<le> 2 ^ 52"
    by (metis of_int_abs of_int_le_iff of_int_numeral of_int_power)
  with q(1) show "\<bar>ratingValue x\<bar> \<le> 2 ^ 52" by (simp add: ratingValue_def)
qed

lemma gap_exact:
  assumes "safeRating (ratingOr (q_rating u))" "safeRating (ratingOr (p_rating pl))"
  shows "jsAbs (jsSub (ratingOr (q_rating u)) (ratingOr (p_rating pl))) =
         Fin (of_int (ratingGap pl u))"
proof -
  define a where "a = ratingValue (ratingOr (q_rating u))"
  define b where "b = ratingValue (ratingOr (p_rating pl))"
  note ua = safeRating_value [OF assms(1), folded a_def]
  note pb = safeRating_value [OF assms(2), folded b_def]
  from ua(2) pb(2) have "\<bar>a - b\<bar> \<le> 2 ^ 53" by simp
  from jsSub_int [OF this]
  have "jsAbs (jsSub (Fin (of_int a)) (Fin (of_int b))) = Fin (of_int \<bar>a - b\<bar>)"
    by (simp add: jsAbs_def)
  then show ?thesis
    unfolding ratingGap_def a_def [symmetric] b_def [symmetric] using ua(1) pb(1) by simp
qed

lemma bestSoFar_skip:
  assumes "bestSoFar pl seen bestId bestDiff" "i = p_id pl"
  shows "bestSoFar pl (seen @ [(i, u)]) bestId bestDiff"
proof (cases bestId)
  case None
  with assms show ?thesis by (auto simp: bestSoFar_def)
next
  case (Some k)
  with assms obtain e pre post where h: "k \<noteq> p_id pl" "seen = pre @ (k, e) # post"
    "bestDiff = Fin (of_int (ratingGap pl e))"
    "\<forall>(i, u) \<in> set seen. i \<noteq> p_id pl \<longrightarrow> ratingGap pl e \<le> ratingGap pl u"
    "\<forall>(i, u) \<in> set pre. i \<noteq> p_id pl \<longrightarrow> ratingGap pl e < ratingGap pl u"
    by (auto simp: bestSoFar_def)
  have "seen @ [(i, u)] = pre @ (k, e) # (post @ [(i, u)])" using h(2) by simp
  moreover have "\<forall>(j, v) \<in> set (seen @ [(i, u)]). j \<noteq> p_id pl \<longrightarrow> ratingGap pl e \<le> ratingGap pl v"
    using h(4) assms(2) by auto
  ultimately show ?thesis using Some h(1,3,5) unfolding bestSoFar_def by (simp, blast)
qed

lemma bestSoFar_keep:
  assumes "bestSoFar pl seen (Some k) d" "i \<noteq> p_id pl"
    "\<not> jsLess (Fin (of_int (ratingGap pl u))) d"
  shows "bestSoFar pl (seen @ [(i, u)]) (Some k) d"
proof -
  from assms obtain e pre post where h: "k \<noteq> p_id pl" "seen = pre @ (k, e) # post"
    "d = Fin (of_int (ratingGap pl e))"
    "\<forall>(i, u) \<in> set seen. i \<noteq> p_id pl \<longrightarrow> ratingGap pl e \<le> ratingGap pl u"
    "\<forall>(i, u) \<in> set pre. i \<noteq> p_id pl \<longrightarrow> ratingGap pl e < ratingGap pl u"
    by (auto simp: bestSoFar_def)
  from assms(3) h(3) have far: "\<not> ratingGap pl u < ratingGap pl e" by (simp add: jsLess_int)
  have "seen @ [(i, u)] = pre @ (k, e) # (post @ [(i, u)])" using h(2) by simp
  moreover have "\<forall>(j, v) \<in> set (seen @ [(i, u)]). j \<noteq> p_id pl \<longrightarrow> ratingGap pl e \<le> ratingGap pl v"
    using h(4) far by auto
  ultimately show ?thesis using h(1,3,5) unfolding bestSoFar_def by (simp, blast)
qed

lemma bestSoFar_take:
  assumes "bestSoFar pl seen bestId bestDiff" "i \<noteq> p_id pl"
    "jsLess (Fin (of_int (ratingGap pl u))) bestDiff"
  shows "bestSoFar pl (seen @ [(i, u)]) (Some i) (Fin (of_int (ratingGap pl u)))"
proof -
  have "\<forall>(j, v) \<in> set seen. j \<noteq> p_id pl \<longrightarrow> ratingGap pl u < ratingGap pl v"
  proof (cases bestId)
    case None
    with assms(1) show ?thesis by (auto simp: bestSoFar_def)
  next
    case (Some k)
    with assms(1) obtain e where h: "bestDiff = Fin (of_int (ratingGap pl e))"
      "\<forall>(i, u) \<in> set seen. i \<noteq> p_id pl \<longrightarrow> ratingGap pl e \<le> ratingGap pl u"
      by (auto simp: bestSoFar_def)
    from h(1) assms(3) have "ratingGap pl u < ratingGap pl e" by (simp add: jsLess_int)
    with h(2) show ?thesis by fastforce
  qed
  moreover have "seen @ [(i, u)] = seen @ (i, u) # []" by simp
  ultimately show ?thesis using assms(2) unfolding bestSoFar_def
    by (simp, intro exI[of _ u] exI[of _ seen] exI[of _ "[]"]) auto
qed

lemma bestLoop_bestSoFar:
  "safeRating (ratingOr (p_rating pl)) \<Longrightarrow>
   \<forall>(i, u) \<in> set rest. safeRating (ratingOr (q_rating u)) \<Longrightarrow>
   bestSoFar pl seen bestId bestDiff \<Longrightarrow>
   \<exists>d. bestSoFar pl (seen @ rest) (bestLoop rest pl bestId bestDiff) d"
proof (induction rest arbitrary: seen bestId bestDiff)
  case Nil
  then show ?case by auto
next
  case (Cons a rest)
  obtain i u where a: "a = (i, u)" by (cases a)
  from Cons.prems(2) a have su: "safeRating (ratingOr (q_rating u))"
    and srest: "\<forall>(i, u) \<in> set rest. safeRating (ratingOr (q_rating u))"
    by simp_all
  note gap = gap_exact [OF su Cons.prems(1)]
  note IH = Cons.IH [OF Cons.prems(1) srest]
  show ?case
  proof (cases "i = p_id pl")
    case True
    from bestSoFar_skip [OF Cons.prems(3) True, of u]
    have "\<exists>d. bestSoFar pl ((seen @ [(i, u)]) @ rest) (bestLoop rest pl bestId bestDiff) d"
      by (rule IH)
    then show ?thesis using True a by simp
  next
    case False
    show ?thesis
    proof (cases "jsLess (Fin (of_int (ratingGap pl u))) bestDiff")
      case True
      from bestSoFar_take [OF Cons.prems(3) False True]
      have "\<exists>d. bestSoFar pl ((seen @ [(i, u)]) @ rest)
                 (bestLoop rest pl (Some i) (Fin (of_int (ratingGap pl u)))) d"
        by (rule IH)
      then show ?thesis using False True a by (simp add: gap Let_def)
    next
      case notless: False
      from Cons.prems(3) notless obtain k where k: "bestId = Some k"
        by (cases bestId) (auto simp: bestSoFar_def jsLess_def)
      from bestSoFar_keep [OF Cons.prems(3) [unfolded k] False notless]
      have "\<exists>d'. bestSoFar pl ((seen @ [(i, u)]) @ rest) (bestLoop rest pl (Some k) bestDiff) d'"
        by (rule IH)
      then show ?thesis using False notless a k by (simp add: gap Let_def)
    qed
  qed
qed

text \<open>
  Claim C6, as the code has it. For a queue (a \<^verbatim>\<open>Map\<close>: distinct keys) none of whose
  keys is the empty string, whose ratings and the joiner's rating are integers of
  magnitude at most \<open>2^52\<close>, and which holds an entry of another player,
  \<^const>\<open>findBestOpponent\<close> returns an entry of the queue that is not the joiner's own,
  whose absolute rating difference to the joiner is least among the entries of the other
  players, and which is the first such entry in iteration order: every other player's
  entry before it is strictly further away. At the queue 2000, 1510, 1500 the joiner rated
  1500 gets the player rated 1510.
\<close>

theorem findBestOpponent_closest:
  assumes "distinct (map fst queue)"
    and "\<forall>(i, u) \<in> set queue. i \<noteq> [] \<and> safeRating (ratingOr (q_rating u))"
    and "safeRating (ratingOr (p_rating pl))"
    and "\<exists>(i, u) \<in> set queue. i \<noteq> p_id pl"
  shows "\<exists>k e pre post.
           findBestOpponent queue pl = Some e \<and> queue = pre @ (k, e) # post \<and> k \<noteq> p_id pl \<and>
           (\<forall>(i, u) \<in> set queue. i \<noteq> p_id pl \<longrightarrow>
              \<bar>ratingValue (ratingOr (q_rating e)) - ratingValue (ratingOr (p_rating pl))\<bar>
                \<le> \<bar>ratingValue (ratingOr (q_rating u)) - ratingValue (ratingOr (p_rating pl))\<bar>) \<and>
           (\<forall>(i, u) \<in> set pre. i \<noteq> p_id pl \<longrightarrow>
              \<bar>ratingValue (ratingOr (q_rating e)) - ratingValue (ratingOr (p_rating pl))\<bar>
                < \<bar>ratingValue (ratingOr (q_rating u)) - ratingValue (ratingOr (p_rating pl))\<bar>)"
proof -
  have start: "bestSoFar pl [] None PInf" by (simp add: bestSoFar_def)
  from assms(2) have safe: "\<forall>(i, u) \<in> set queue. safeRating (ratingOr (q_rating u))" by auto
  from bestLoop_bestSoFar [OF assms(3) safe start]
  obtain d where inv: "bestSoFar pl queue (bestLoop queue pl None PInf) d" by auto
  from assms(4) inv obtain k where k: "bestLoop queue pl None PInf = Some k"
    by (cases "bestLoop queue pl None PInf") (auto simp: bestSoFar_def)
  with inv obtain e pre post where h: "k \<noteq> p_id pl" "queue = pre @ (k, e) # post"
    "\<forall>(i, u) \<in> set queue. i \<noteq> p_id pl \<longrightarrow> ratingGap pl e \<le> ratingGap pl u"
    "\<forall>(i, u) \<in> set pre. i \<noteq> p_id pl \<longrightarrow> ratingGap pl e < ratingGap pl u"
    by (auto simp: bestSoFar_def)
  from h(2) have mem: "(k, e) \<in> set queue" by simp
  with assms(2) have "k \<noteq> []" by auto
  moreover from mem assms(1) have "map_of queue k = Some e" by simp
  ultimately have "findBestOpponent queue pl = Some e"
    by (simp add: findBestOpponent_def k)
  with h show ?thesis unfolding ratingGap_def by blast
qed

theorem findBestOpponent_closest_witness:
  "distinct (map fst demoQueue) \<and> [] \<notin> set (map fst demoQueue) \<and>
   map (\<lambda>(i, u). safeRating (ratingOr (q_rating u))) demoQueue = [True, True, True] \<and>
   safeRating (ratingOr (p_rating demoPlayer)) \<and>
   (\<exists>(i, u) \<in> set demoQueue. i \<noteq> p_id demoPlayer) \<and>
   findBestOpponent demoQueue demoPlayer =
     Some \<lparr>q_id = ''bob'', q_name = ''Bob'', q_rating = Some (Fin 1510), q_ts = 2\<rparr>"
proof -
  have h1: "distinct (map fst demoQueue)" by (simp add: demoQueue_def)
  have s: "map (\<lambda>(i, u). safeRating (ratingOr (q_rating u))) demoQueue = [True, True, True]"
    by (simp add: demoQueue_def ratingOr_def safeRating_def)
  have h2: "\<forall>(i, u) \<in> set demoQueue. i \<noteq> [] \<and> safeRating (ratingOr (q_rating u))"
    by (simp add: demoQueue_def ratingOr_def safeRating_def)
  have h3: "safeRating (ratingOr (p_rating demoPlayer))"
    by (simp add: demoPlayer_def ratingOr_def safeRating_def)
  have h4: "\<exists>(i, u) \<in> set demoQueue. i \<noteq> p_id demoPlayer"
    by (simp add: demoQueue_def demoPlayer_def)
  from findBestOpponent_closest [OF h1 h2 h3 h4]
  obtain k e pre post where r: "findBestOpponent demoQueue demoPlayer = Some e"
    "demoQueue = pre @ (k, e) # post" "k \<noteq> p_id demoPlayer"
    "\<forall>(i, u) \<in> set demoQueue. i \<noteq> p_id demoPlayer \<longrightarrow>
       \<bar>ratingValue (ratingOr (q_rating e)) - ratingValue (ratingOr (p_rating demoPlayer))\<bar>
         \<le> \<bar>ratingValue (ratingOr (q_rating u)) - ratingValue (ratingOr (p_rating demoPlayer))\<bar>"
    by blast
  from r(2) have "(k, e) \<in> set demoQueue" by (metis in_set_conv_decomp)
  with r(3,4) have "e = \<lparr>q_id = ''bob'', q_name = ''Bob'', q_rating = Some (Fin 1510), q_ts = 2\<rparr>"
    by (auto simp: demoQueue_def demoPlayer_def ratingOr_def ratingValue_def)
  moreover have "[] \<notin> set (map fst demoQueue)" by (simp add: demoQueue_def)
  ultimately show ?thesis using r(1) h1 s h3 h4 by simp
qed

text \<open>
  An opponent waits and none is returned: under the empty key, which the result test takes
  for \<^verbatim>\<open>null\<close>, and with the rating \<^verbatim>\<open>Infinity\<close>, whose distance is not below the
  initial \<^verbatim>\<open>bestDiff\<close>.
\<close>

theorem findBestOpponent_none_counterexample:
  "(\<exists>(i, u) \<in> set namelessQueue. i \<noteq> p_id demoPlayer) \<and>
   findBestOpponent namelessQueue demoPlayer = None \<and>
   (\<exists>(i, u) \<in> set unboundedQueue. i \<noteq> p_id demoPlayer) \<and>
   findBestOpponent unboundedQueue demoPlayer = None"
proof -
  have "round64 (of_int 10) = Fin (of_int 10)" by (rule round64_int) simp
  then have ten: "round64 10 = Fin 10" by simp
  have "findBestOpponent namelessQueue demoPlayer = None"
    by (simp add: findBestOpponent_def namelessQueue_def demoPlayer_def ratingOr_def Let_def
        jsSub_def jsNeg_def jsAdd_def jsAbs_def jsLess_def ten)
  moreover have "findBestOpponent unboundedQueue demoPlayer = None"
    by (simp add: findBestOpponent_def unboundedQueue_def demoPlayer_def ratingOr_def Let_def
        jsSub_def jsNeg_def jsAdd_def jsAbs_def jsLess_def)
  ultimately show ?thesis by (simp add: namelessQueue_def unboundedQueue_def demoPlayer_def)
qed

section \<open>The engine on the initial position\<close>

lemma gen_e2: "generatePieceMoves reset 6 4 = [e2e3, e2e4]"
  by code_simp

lemma legal_e2e3: "legalIn reset e2e3"
  by code_simp

lemma legal_e2e4: "legalIn reset e2e4"
  by code_simp

lemma coords_e2: "squareToCoords ''e2'' = Some (Some 6, 4)"
  by code_simp

lemma moves_reset_e2: "moves reset (Some ''e2'') = Inr ([e2e3, e2e4], reset)"
  using moves_square [OF shaped_reset _ coords_e2]
  by (simp add: gen_e2 legal_e2e3 legal_e2e4)

lemma sideMoves_member:
  assumes "inBounds r c" "at (board s) r c = Some pc" "colorOf pc = turnColor s"
    "m \<in> set (generatePieceMoves s r c)"
  shows "m \<in> set (sideMoves s)"
proof -
  from assms(1) have "(r, c) \<in> set allSquares" by (simp add: allSquares_inBounds)
  with assms(2,3,4) show ?thesis
    unfolding sideMoves_def colorOf_def by (force split: option.splits)
qed

lemma pawn_e2: "at (board reset) 6 4 = Some CHR ''P''"
  by code_simp

lemma e2e4_sideMoves: "e2e4 \<in> set (sideMoves reset)"
  by (rule sideMoves_member [OF _ pawn_e2])
    (simp_all add: inBounds_def colorOf_def turnColor_reset gen_e2)

text \<open>The position with the pawn on a7: its five legal moves.\<close>

lemma promoPos_board: "promoPos =
  \<lparr>board =
     [[None, Some CHR ''n'', None, None, None, None, None, None],
      [Some CHR ''P'', None, None, None, None, None, None, None],
      [None, None, None, None, None, None, None, None],
      [None, None, None, None, None, None, None, None],
      [None, None, None, None, None, None, None, None],
      [None, None, None, None, None, None, None, None],
      [None, None, None, None, None, None, None, None],
      [Some CHR ''k'', None, None, None, None, None, None, Some CHR ''K'']],
   turnColor = W, history = []\<rparr>"
  by code_simp

lemma shaped_promoPos: "shaped (board promoPos)"
  by (simp add: promoPos_board shaped_def)

lemma sideMoves_promoPos: "sideMoves promoPos = [a7a8, a7b8, h1g2, h1h2, h1g1]"
  by code_simp

lemma legal_promoPos:
  "legalIn promoPos a7a8" "legalIn promoPos a7b8" "legalIn promoPos h1g2"
  "legalIn promoPos h1h2" "legalIn promoPos h1g1"
  by code_simp+

lemma moves_promoPos: "moves promoPos None = Inr ([a7a8, a7b8, h1g2, h1h2, h1g1], promoPos)"
  by (simp add: moves_side [OF shaped_promoPos] sideMoves_promoPos legal_promoPos)

text \<open>Undoing the promotion that captures the knight on b8 restores the position.\<close>

lemma undo_capturing_promotion:
  "\<exists>s1. makeMove promoPos a7b8 = Inr s1 \<and> undo s1 = Inr (Some a7b8, promoPos)"
proof -
  have "candidate promoPos a7b8"
    by (rule sideMoves_candidate) (simp add: sideMoves_promoPos)
  with shaped_promoPos obtain s1 where
    "makeMove promoPos a7b8 = Inr s1" "undo s1 = Inr (Some a7b8, promoPos)"
    by (rule undo_after_makeMove)
  then show ?thesis by blast
qed

text \<open>The first move e2e4 and the position it leads to.\<close>

lemma move_e2e4: "move reset ''e2'' ''e4'' None = Inr (Some e2e4, afterE4)"
proof -
  have mem: "e2e4 \<in> set (filter (legalIn reset) (sideMoves reset))"
    using e2e4_sideMoves legal_e2e4 by simp
  have sq: "from_sq e2e4 = ''e2''" "to_sq e2e4 = ''e4''" by (simp_all add: e2e4_def)
  have "matches ''e2'' ''e4'' None e2e4" by (simp add: matches_def e2e4_def)
  with move_finds [OF shaped_reset mem, of None, unfolded sq]
  have found: "find (matches ''e2'' ''e4'' None) (filter (legalIn reset) (sideMoves reset)) =
      Some e2e4"
    by simp
  from legal_e2e4 obtain s1 where s1: "makeMove reset e2e4 = Inr s1"
    by (cases "makeMove reset e2e4") (simp_all add: legalIn_def)
  then have "afterE4 = s1" by (simp add: afterE4_def)
  with s1 found show ?thesis by (simp add: move_def moves_side [OF shaped_reset])
qed

lemma reachable_afterE4: "reachable afterE4"
  using reachable_reset move_e2e4 by (rule reachable_move)

lemma fen_afterE4: "fen afterE4 = ''rnbqkbnr/pppppppp/8/8/4P3/8/PPPP1PPP/RNBQKBNR b - - 0 1''"
  by code_simp

section \<open>Legal moves never leave the mover's king attacked\<close>

text \<open>
  Claim C1. In every position reachable from the initial position through successful
  calls of \<^const>\<open>move\<close>, the whole-side query \<^const>\<open>moves\<close> returns a list and leaves the
  engine as it was, and every move that \<^const>\<open>moves\<close> returns, for the whole side or for a
  single square, can be applied with \<^const>\<open>makeMove\<close> and leaves the king of the side that
  moved not attacked: \<^const>\<open>isInCheck\<close> of the mover's colour is false afterwards.
\<close>

theorem moves_keep_king_safe:
  assumes "reachable s"
  shows "(\<exists>ms. moves s None = Inr (ms, s)) \<and>
         (\<forall>sq ms s'. moves s sq = Inr (ms, s') \<longrightarrow>
            s' = s \<and>
            (\<forall>m \<in> set ms. \<exists>s1. makeMove s m = Inr s1 \<and> \<not> isInCheck s1 (turnColor s)))"
proof -
  from assms have sh: "shaped (board s)" by (rule reachable_shaped)
  have "\<exists>s1. makeMove s m = Inr s1 \<and> \<not> isInCheck s1 (turnColor s)" if "legalIn s m" for m
    using that by (cases "makeMove s m") (simp_all add: legalIn_def)
  with moves_Inr [OF sh] moves_side [OF sh] show ?thesis by blast
qed

theorem moves_keep_king_safe_witness:
  "reachable reset \<and> moves reset (Some ''e2'') = Inr ([e2e3, e2e4], reset) \<and>
   (\<exists>s1. makeMove reset e2e4 = Inr s1 \<and> \<not> isInCheck s1 (turnColor reset)) \<and>
   (\<exists>ms. moves reset None = Inr (ms, reset))"
proof -
  note safe = moves_keep_king_safe [OF reachable_reset]
  from safe moves_reset_e2
  have "\<forall>m \<in> set [e2e3, e2e4]. \<exists>s1. makeMove reset m = Inr s1 \<and> \<not> isInCheck s1 (turnColor reset)"
    by blast
  then have "\<exists>s1. makeMove reset e2e4 = Inr s1 \<and> \<not> isInCheck s1 (turnColor reset)"
    by simp
  with safe moves_reset_e2 reachable_reset show ?thesis by blast
qed

section \<open>Undo restores the position\<close>

text \<open>
  Claim C4. In every reachable position, for every legal move (a move returned by
  \<^const>\<open>moves\<close>, for the whole side or for one square; captures and promotions included),
  \<^const>\<open>makeMove\<close> followed by \<^const>\<open>undo\<close> returns that move and restores the board and
  the side to move, hence the same serialization \<^const>\<open>fen\<close>.
\<close>

theorem makeMove_undo_restores:
  assumes "reachable s" and "moves s sq = Inr (ms, s')" and "m \<in> set ms"
  shows "\<exists>s1 s2. makeMove s m = Inr s1 \<and> undo s1 = Inr (Some m, s2) \<and>
           board s2 = board s \<and> turnColor s2 = turnColor s \<and> fen s2 = fen s"
proof -
  from assms(1) have sh: "shaped (board s)" by (rule reachable_shaped)
  from moves_Inr [OF sh assms(2)] assms(3) have "candidate s m" by blast
  with sh obtain s1 where "makeMove s m = Inr s1" "undo s1 = Inr (Some m, s)"
    by (rule undo_after_makeMove)
  then show ?thesis by blast
qed

theorem makeMove_undo_restores_witness:
  "reachable reset \<and> moves reset (Some ''e2'') = Inr ([e2e3, e2e4], reset) \<and>
   e2e4 \<in> set [e2e3, e2e4] \<and>
   (\<exists>s1 s2. makeMove reset e2e4 = Inr s1 \<and> undo s1 = Inr (Some e2e4, s2) \<and>
      board s2 = board reset \<and> turnColor s2 = turnColor reset \<and> fen s2 = fen reset)"
proof -
  have mem: "e2e4 \<in> set [e2e3, e2e4]" by simp
  from makeMove_undo_restores [OF reachable_reset moves_reset_e2 mem]
    reachable_reset moves_reset_e2 mem
  show ?thesis by blast
qed

section \<open>A board without a king\<close>

lemma findKing_None:
  assumes "\<not> hasKing b color"
  shows "findKing b (color = W) = None"
proof -
  have "\<not> (case at b r c of None \<Rightarrow> False
           | Some pc \<Rightarrow> toLowerCase pc = CHR ''k'' \<and> ((color = W) = (pc = toUpperCase pc)))"
    if "inBounds r c" for r c
    using assms that
    by (cases color) (auto simp: hasKing_def colorOf_def split: option.splits if_splits)
  then show ?thesis
    unfolding findKing_def find_None_iff by (auto simp: allSquares_inBounds)
qed

lemma no_king_found:
  assumes "findKing b (color = W) = None"
  shows "\<not> hasKing b color"
proof
  assume "hasKing b color"
  then obtain r c pc where h: "inBounds r c" "at b r c = Some pc" "toLowerCase pc = CHR ''k''"
    "colorOf pc = color"
    unfolding hasKing_def by blast
  from h(4) have "(color = W) = (pc = toUpperCase pc)"
    by (cases color) (auto simp: colorOf_def split: if_splits)
  moreover from h(1) have "(r, c) \<in> set allSquares" by (simp add: allSquares_inBounds)
  moreover from assms have "\<forall>x \<in> set allSquares.
      \<not> (case x of (r, c) \<Rightarrow> case at b r c of None \<Rightarrow> False
           | Some pc \<Rightarrow> toLowerCase pc = CHR ''k'' \<and> ((color = W) = (pc = toUpperCase pc)))"
    unfolding findKing_def find_None_iff by blast
  ultimately show False using h(2,3) by force
qed

lemma loneKing_no_black_king: "findKing (board loneKing) (B = W) = None"
  by code_simp

text \<open>
  Claim C9. On every board on which a colour has no king at all, \<^const>\<open>isInCheck\<close> of that
  colour is false: the query answers "not in check" and raises nothing.
\<close>

theorem isInCheck_without_king:
  assumes "\<not> hasKing (board s) color"
  shows "\<not> isInCheck s color"
  using findKing_None [OF assms] by (simp add: isInCheck_def)

theorem isInCheck_without_king_witness:
  "\<not> hasKing (board loneKing) B \<and> \<not> isInCheck loneKing B"
proof -
  have "\<not> hasKing (board loneKing) B"
    by (rule no_king_found) (rule loneKing_no_black_king)
  with isInCheck_without_king [of loneKing B] show ?thesis by blast
qed

section \<open>Square strings that are not squares\<close>

lemma file_letter: "ch \<in> set ''abcdefgh'' \<longleftrightarrow> 97 \<le> (of_char ch :: int) \<and> (of_char ch :: int) \<le> 104"
proof -
  have e: "ch = d \<longleftrightarrow> (of_char ch :: int) = of_char d" for d by simp
  have "97 \<le> n \<and> n \<le> 104 \<longleftrightarrow> n = 97 \<or> n = 98 \<or> n = 99 \<or> n = 100 \<or> n = 101 \<or> n = 102
      \<or> n = 103 \<or> n = 104" for n :: int
    by arith
  then show ?thesis by (simp add: e)
qed

lemma rank_digit: "ch \<in> set ''09'' \<longleftrightarrow> (of_char ch :: int) = 48 \<or> (of_char ch :: int) = 57"
proof -
  have e: "ch = d \<longleftrightarrow> (of_char ch :: int) = of_char d" for d by simp
  show ?thesis by (simp add: e)
qed

text \<open>
  Claim C10, amended. For every string whose length is not 2, or whose first character is
  not one of the letters a to h, or whose second character is the digit 0 or 9,
  \<^const>\<open>squareToCoords\<close> returns null and \<^const>\<open>get\<close> returns null; \<^const>\<open>moves\<close> for that
  square returns the empty list and leaves the engine unchanged when the string is not
  empty, and the empty string is taken as no square at all: the query is the whole-side
  query.
\<close>

theorem malformed_square_rejected:
  assumes "length sq \<noteq> 2 \<or> sq ! 0 \<notin> set ''abcdefgh'' \<or> sq ! 1 \<in> set ''09''"
  shows "squareToCoords sq = None \<and> get s sq = Inr None \<and>
         (sq \<noteq> [] \<longrightarrow> moves s (Some sq) = Inr ([], s)) \<and>
         (sq = [] \<longrightarrow> moves s (Some sq) = moves s None)"
proof -
  from assms have "squareToCoords sq = None"
    unfolding file_letter rank_digit
    by (auto simp: squareToCoords_def Let_def parseInt1_def)
  then show ?thesis by (simp add: get_def moves_def)
qed

theorem malformed_square_rejected_witness:
  "length ''e22'' \<noteq> 2 \<and> squareToCoords ''e22'' = None \<and> get reset ''e22'' = Inr None \<and>
   moves reset (Some ''e22'') = Inr ([], reset) \<and>
   ''i1'' ! 0 \<notin> set ''abcdefgh'' \<and> moves reset (Some ''i1'') = Inr ([], reset) \<and>
   ''a9'' ! 1 \<in> set ''09'' \<and> get reset ''a9'' = Inr None"
  using malformed_square_rejected [of "''e22''" reset]
    malformed_square_rejected [of "''i1''" reset]
    malformed_square_rejected [of "''a9''" reset]
  by simp

text \<open>
  The claim as stated fails at two inputs on the initial position. The string \<open>ax\<close> has a
  second character that is no digit: its rank is \<^verbatim>\<open>NaN\<close>, which passes the range test,
  so the conversion returns a pair and the board access raises. The empty string makes
  \<^const>\<open>moves\<close> answer for the whole side.
\<close>

theorem square_queries_counterexample:
  "squareToCoords ''ax'' = Some (None, 0) \<and>
   get reset ''ax'' = Inl TypeError \<and>
   moves reset (Some ''ax'') = Inl TypeError \<and>
   length '''' \<noteq> 2 \<and> moves reset (Some '''') \<noteq> Inr ([], reset)"
proof -
  have a: "squareToCoords ''ax'' = Some (None, 0)" by code_simp
  have "e2e4 \<in> set (filter (legalIn reset) (sideMoves reset))"
    using e2e4_sideMoves legal_e2e4 by simp
  then have "filter (legalIn reset) (sideMoves reset) \<noteq> []"
    by (metis empty_iff list.set(1))
  then have "moves reset (Some '''') \<noteq> Inr ([], reset)"
    using moves_side [OF shaped_reset] by (simp add: moves_def)
  with a show ?thesis by (simp add: get_def moves_def)
qed

section \<open>Promotion\<close>

text \<open>
  Claim C2, amended. In every position (a board of 8 rows), for every legal pawn move that
  reaches the last rank, the move object carries the promotion to queen; \<^const>\<open>move\<close>
  called with its squares and no promotion, an empty promotion or the promotion \<open>q\<close>
  succeeds with that move and puts a queen of the mover's colour on the destination;
  called with any other promotion it finds no move, returns null and leaves the engine
  unchanged.
\<close>

theorem promotion_to_queen:
  assumes sh: "shaped (board s)" and mv: "moves s None = Inr (ms, s')" and lm: "lm \<in> set ms"
    and pawn: "piece lm = CHR ''p''" and rank: "to_sq lm ! 1 \<in> set ''18''"
  shows "promotion lm = Some CHR ''q'' \<and>
         (promo = None \<or> promo = Some [] \<or> promo = Some ''q'' \<longrightarrow>
            (\<exists>s2. move s (from_sq lm) (to_sq lm) promo = Inr (Some lm, s2) \<and>
               get s2 (to_sq lm) = Inr (Some (CHR ''q'', turnColor s)))) \<and>
         (promo \<noteq> None \<and> promo \<noteq> Some [] \<and> promo \<noteq> Some ''q'' \<longrightarrow>
            move s (from_sq lm) (to_sq lm) promo = Inr (None, s))"
proof -
  from mv moves_side [OF sh] have ms: "ms = filter (legalIn s) (sideMoves s)" by auto
  with lm have cand: "candidate s lm" by (auto intro: sideMoves_candidate)
  then obtain r1 c1 pc r2 c2 where h: "inBounds r1 c1" "at (board s) r1 c1 = Some pc"
    "colorOf pc = turnColor s" "goes (board s) r1 c1 pc lm r2 c2"
    unfolding candidate_def by blast
  from h(4) have g: "inBounds r2 c2" "target_ok (board s) pc r2 c2"
    "from_sq lm = coordsToSquare r1 c1" "to_sq lm = coordsToSquare r2 c2"
    "piece lm = toLowerCase pc" "promotion lm = promo_of pc r2"
    by (simp_all add: goes_def)
  from rank g(1,4) have "r2 = 0 \<or> r2 = 7" by (auto dest: last_rank)
  with pawn g(5,6) have q: "promotion lm = Some CHR ''q''" by (simp add: promo_of_def)
  have ne: "r1 \<noteq> r2 \<or> c1 \<noteq> c2"
  proof (rule ccontr)
    assume "\<not> (r1 \<noteq> r2 \<or> c1 \<noteq> c2)"
    with h(2) g(2) show False by (auto simp: target_ok_def)
  qed
  have co: "squareToCoords (from_sq lm) = Some (Some r1, c1)"
    "squareToCoords (to_sq lm) = Some (Some r2, c2)"
    using h(1) g(1,3,4) by (simp_all add: squareToCoords_coordsToSquare)
  note made = makeMove_at [OF co h(2) h(1) g(1) ne]
  have queen: "landed pc (promotion lm) = (if pc = toUpperCase pc then CHR ''Q'' else CHR ''q'')"
    by (simp add: q landed_def)
  have found: "find (matches (from_sq lm) (to_sq lm) promo) (filter (legalIn s) (sideMoves s)) =
      (if matches (from_sq lm) (to_sq lm) promo lm then Some lm else None)"
    using lm unfolding ms by (rule move_finds [OF sh])
  have m_yes: "matches (from_sq lm) (to_sq lm) promo lm"
    if "promo = None \<or> promo = Some [] \<or> promo = Some ''q''"
    using that q by (auto simp: matches_def)
  have m_no: "\<not> matches (from_sq lm) (to_sq lm) promo lm"
    if "promo \<noteq> None \<and> promo \<noteq> Some [] \<and> promo \<noteq> Some ''q''"
    using that q by (cases promo) (auto simp: matches_def)
  have at2: "at (put (put (board s) r2 c2 (Some (landed pc (promotion lm)))) r1 c1 None) r2 c2 =
      Some (landed pc (promotion lm))"
    using sh h(1) g(1) ne by (auto simp: at_put shaped_put)
  have yes: "\<exists>s2. move s (from_sq lm) (to_sq lm) promo = Inr (Some lm, s2) \<and>
               get s2 (to_sq lm) = Inr (Some (CHR ''q'', turnColor s))"
    if "promo = None \<or> promo = Some [] \<or> promo = Some ''q''"
  proof -
    have "move s (from_sq lm) (to_sq lm) promo =
        Inr (Some lm,
          \<lparr>board = put (put (board s) r2 c2 (Some (landed pc (promotion lm)))) r1 c1 None,
           turnColor = (if turnColor s = W then B else W),
           history = history s @
             [\<lparr>h_mv = lm, h_captured = at (board s) r2 c2, h_turn = turnColor s\<rparr>]\<rparr>)"
      by (simp add: move_def moves_side [OF sh] found m_yes [OF that] made)
    moreover have "get \<lparr>board = put (put (board s) r2 c2 (Some (landed pc (promotion lm)))) r1 c1 None,
           turnColor = (if turnColor s = W then B else W),
           history = history s @
             [\<lparr>h_mv = lm, h_captured = at (board s) r2 c2, h_turn = turnColor s\<rparr>]\<rparr> (to_sq lm) =
         Inr (Some (CHR ''q'', turnColor s))"
    proof -
      have "(toLowerCase (landed pc (promotion lm)),
             if landed pc (promotion lm) = toUpperCase (landed pc (promotion lm)) then W else B) =
            (CHR ''q'', turnColor s)"
        using h(3) unfolding queen by (cases "pc = toUpperCase pc") (simp_all add: colorOf_def)
      then show ?thesis by (simp add: get_def co at2)
    qed
    ultimately show ?thesis by simp
  qed
  have no: "move s (from_sq lm) (to_sq lm) promo = Inr (None, s)"
    if "promo \<noteq> None \<and> promo \<noteq> Some [] \<and> promo \<noteq> Some ''q''"
    by (simp add: move_def moves_side [OF sh] found m_no [OF that])
  from q yes no show ?thesis by blast
qed

theorem promotion_to_queen_witness:
  "shaped (board promoPos) \<and>
   moves promoPos None = Inr ([a7a8, a7b8, h1g2, h1h2, h1g1], promoPos) \<and>
   a7b8 \<in> set [a7a8, a7b8, h1g2, h1h2, h1g1] \<and>
   piece a7b8 = CHR ''p'' \<and> to_sq a7b8 ! 1 \<in> set ''18'' \<and>
   promotion a7b8 = Some CHR ''q'' \<and>
   (\<exists>s2. move promoPos ''a7'' ''b8'' None = Inr (Some a7b8, s2) \<and>
      get s2 ''b8'' = Inr (Some (CHR ''q'', W))) \<and>
   (\<exists>s2. move promoPos ''a7'' ''b8'' (Some ''q'') = Inr (Some a7b8, s2) \<and>
      get s2 ''b8'' = Inr (Some (CHR ''q'', W))) \<and>
   move promoPos ''a7'' ''b8'' (Some ''n'') = Inr (None, promoPos)"
proof -
  have mem: "a7b8 \<in> set [a7a8, a7b8, h1g2, h1h2, h1g1]" by simp
  have pawn: "piece a7b8 = CHR ''p''" by (simp add: a7b8_def)
  have rank: "to_sq a7b8 ! 1 \<in> set ''18''" by (simp add: a7b8_def)
  have sq: "from_sq a7b8 = ''a7''" "to_sq a7b8 = ''b8''" by (simp_all add: a7b8_def)
  have white: "turnColor promoPos = W" by (simp add: promoPos_board)
  note queen = promotion_to_queen [OF shaped_promoPos moves_promoPos mem pawn rank,
      unfolded sq white]
  from queen [of None] queen [of "Some ''q''"] queen [of "Some ''n''"]
  have "promotion a7b8 = Some CHR ''q''"
    "\<exists>s2. move promoPos ''a7'' ''b8'' None = Inr (Some a7b8, s2) \<and>
      get s2 ''b8'' = Inr (Some (CHR ''q'', W))"
    "\<exists>s2. move promoPos ''a7'' ''b8'' (Some ''q'') = Inr (Some a7b8, s2) \<and>
      get s2 ''b8'' = Inr (Some (CHR ''q'', W))"
    "move promoPos ''a7'' ''b8'' (Some ''n'') = Inr (None, promoPos)"
    by simp_all
  with shaped_promoPos moves_promoPos mem pawn rank show ?thesis by blast
qed

text \<open>
  The claim as stated fails: with the pawn on a7 and a8 empty, the promoting move a7a8 is
  legal, and \<^const>\<open>move\<close> called with the promotion \<open>r\<close> returns null and changes nothing.
\<close>

theorem promotion_choice_counterexample:
  "moves promoPos None = Inr ([a7a8, a7b8, h1g2, h1h2, h1g1], promoPos) \<and>
   a7a8 = \<lparr>from_sq = ''a7'', to_sq = ''a8'', piece = CHR ''p'', captured = None,
            promotion = Some CHR ''q''\<rparr> \<and>
   move promoPos ''a7'' ''a8'' (Some ''r'') = Inr (None, promoPos)"
proof -
  have "find (matches ''a7'' ''a8'' (Some ''r'')) [a7a8, a7b8, h1g2, h1h2, h1g1] = None"
    by (simp add: matches_def a7a8_def a7b8_def h1g2_def h1h2_def h1g1_def)
  then have "move promoPos ''a7'' ''a8'' (Some ''r'') = Inr (None, promoPos)"
    by (simp add: move_def moves_promoPos)
  with moves_promoPos show ?thesis by (simp add: a7a8_def)
qed

text \<open>
  Claim C7. When the placement part of the text does not split into exactly 8 ranks,
  \<^const>\<open>load\<close> returns false and the engine (board, side to move, history) is as before.
  When it splits into exactly 8 ranks, \<^const>\<open>load\<close> returns true, with one row per rank
  and an empty history, and raises nothing: every row has at least 8 cells, a rank
  without rank digits gives its first 8 characters as pieces followed by empty squares
  up to 8 cells, and once 8 cells are filled the rest of the rank is ignored.
\<close>

theorem load_rank_count:
  "(length (placementRows txt) \<noteq> 8 \<longrightarrow> load s txt = (False, s)) \<and>
   (length (placementRows txt) = 8 \<longrightarrow>
      (\<exists>t. load s txt = (True, \<lparr>board = map loadRow (placementRows txt), turnColor = t,
                                  history = []\<rparr>)) \<and>
      shaped (map loadRow (placementRows txt))) \<and>
   8 \<le> length (loadRow row) \<and>
   ((\<forall>ch \<in> set row. \<not> rankDigit ch) \<longrightarrow>
      loadRow row = map Some (take 8 row) @ replicate (8 - length row) None) \<and>
   (8 \<le> length (parseRow row [] 0) \<longrightarrow> loadRow (row @ extra) = loadRow row)"
proof -
  obtain placement others where sp: "splitWs (trim txt) = placement # others"
    using splitWs_nonempty [of "trim txt"] by (cases "splitWs (trim txt)") auto
  then have rows: "placementRows txt = splitOn CHR ''/'' placement"
    by (simp add: placementRows_def)
  have a: "length (placementRows txt) \<noteq> 8 \<longrightarrow> load s txt = (False, s)"
    by (simp add: load_def sp rows Let_def)
  have b: "length (placementRows txt) = 8 \<longrightarrow>
      (\<exists>t. load s txt = (True, \<lparr>board = map loadRow (placementRows txt), turnColor = t,
                                  history = []\<rparr>)) \<and>
      shaped (map loadRow (placementRows txt))"
    by (simp add: load_def sp rows Let_def shaped_loaded)
  have c: "(\<forall>ch \<in> set row. \<not> rankDigit ch) \<longrightarrow>
      loadRow row = map Some (take 8 row) @ replicate (8 - length row) None"
    using parseRow_letters [of row "[]"] by (auto simp: loadRow_def Let_def min_def)
  have d: "8 \<le> length (parseRow row [] 0) \<longrightarrow> loadRow (row @ extra) = loadRow row"
    using parseRow_ignore [of row "[]" extra] by (simp add: loadRow_def)
  from a b c d length_loadRow show ?thesis by blast
qed

theorem load_rank_count_witness:
  "length (placementRows ''8/8/8'') \<noteq> 8 \<and> load promoPos ''8/8/8'' = (False, promoPos) \<and>
   length (placementRows ''rnbqkbnrXYZ/x/8/8/8/8/44/7 b'') = 8 \<and>
   load reset ''rnbqkbnrXYZ/x/8/8/8/8/44/7 b'' =
     (True,
      \<lparr>board =
         [map Some ''rnbqkbnr'',
          [Some CHR ''x'', None, None, None, None, None, None, None],
          replicate 8 None, replicate 8 None, replicate 8 None, replicate 8 None,
          replicate 8 None, replicate 8 None],
       turnColor = B, history = []\<rparr>)"
proof -
  have three: "length (placementRows ''8/8/8'') \<noteq> 8" by code_simp
  have eight: "length (placementRows ''rnbqkbnrXYZ/x/8/8/8/8/44/7 b'') = 8" by code_simp
  have rows: "map loadRow (placementRows ''rnbqkbnrXYZ/x/8/8/8/8/44/7 b'') =
         [map Some ''rnbqkbnr'',
          [Some CHR ''x'', None, None, None, None, None, None, None],
          replicate 8 None, replicate 8 None, replicate 8 None, replicate 8 None,
          replicate 8 None, replicate 8 None]"
    by code_simp
  have side: "turnColor (snd (load reset ''rnbqkbnrXYZ/x/8/8/8/8/44/7 b'')) = B" by code_simp
  from load_rank_count [of "''8/8/8''" promoPos] three
  have "load promoPos ''8/8/8'' = (False, promoPos)" by blast
  moreover from load_rank_count [of "''rnbqkbnrXYZ/x/8/8/8/8/44/7 b''" reset] eight
  obtain t where "load reset ''rnbqkbnrXYZ/x/8/8/8/8/44/7 b'' =
      (True, \<lparr>board = map loadRow (placementRows ''rnbqkbnrXYZ/x/8/8/8/8/44/7 b''),
              turnColor = t, history = []\<rparr>)"
    by blast
  ultimately show ?thesis using three eight side unfolding rows by simp
qed

text \<open>
  Claim C8. For every position reachable from the initial position through applied moves,
  \<^const>\<open>load\<close> of the text that \<^const>\<open>fen\<close> produces returns true and yields exactly the
  board and the side to move of that position (with an empty history), whatever engine
  \<^const>\<open>load\<close> is called on.
\<close>

theorem fen_load_roundtrip:
  assumes "reachable s"
  shows "load s0 (fen s) = (True, \<lparr>board = board s, turnColor = turnColor s, history = []\<rparr>)"
  using reachable_tidy [OF assms] by (rule fen_load)

theorem fen_load_roundtrip_witness:
  "reachable afterE4 \<and>
   fen afterE4 = ''rnbqkbnr/pppppppp/8/8/4P3/8/PPPP1PPP/RNBQKBNR b - - 0 1'' \<and>
   load reset ''rnbqkbnr/pppppppp/8/8/4P3/8/PPPP1PPP/RNBQKBNR b - - 0 1'' =
     (True, \<lparr>board = board afterE4, turnColor = turnColor afterE4, history = []\<rparr>)"
  using fen_load_roundtrip [OF reachable_afterE4, of reset] reachable_afterE4
  unfolding fen_afterE4 by simp

end
